theory Spec2Isabelle
  imports Main "HOL-Library.Word"
begin

unbundle bit_operations_syntax

section \<open>Data model of \<^verbatim>\<open>g3_v1_c.cpp\<close>\<close>

text \<open>
  The program is a static order-0 arithmetic coder on bytes. \<^verbatim>\<open>unsigned char\<close> and
  \<^verbatim>\<open>uint8_t\<close> are 8-bit words, \<^verbatim>\<open>uint32_t\<close> 32-bit words, \<^verbatim>\<open>uint64_t\<close>, \<^verbatim>\<open>size_t\<close> and
  \<^verbatim>\<open>long long\<close> 64-bit words (a \<^verbatim>\<open>long long\<close> is read with \<open>sint\<close>). All arithmetic on
  them wraps as in the source. A single bit (\<^verbatim>\<open>int\<close> 0 or 1 in the source) is a \<open>bool\<close>.
\<close>

type_synonym byte = "8 word"
type_synonym u32 = "32 word"
type_synonym u64 = "64 word"

definition MAX_RANGE :: u32 where "MAX_RANGE = 0xFFFFFFFF"
definition HALF :: u32 where "HALF = 0x80000000"
definition FIRST_QTR :: u32 where "FIRST_QTR = 0x40000000"
definition THIRD_QTR :: u32 where "THIRD_QTR = 0xC0000000"

text \<open>\<^verbatim>\<open>struct Symbol { value; low; high; count; }\<close> (fields prefixed, the plain names
  are used for the coder's variables).\<close>

record Symbol =
  sym_value :: byte
  sym_low :: u64
  sym_high :: u64
  sym_count :: u64

text \<open>The members of \<^verbatim>\<open>class ArithmeticEncoder\<close>: they persist between calls on one object.\<close>

record ArithmeticEncoder =
  symbols :: "Symbol list"
  total_count :: u64

text \<open>\<^verbatim>\<open>struct Statistics\<close> without its floating-point field \<^verbatim>\<open>compression_ratio\<close>.\<close>

record Statistics =
  stat_original_size :: u64
  stat_compressed_size :: u64
  stat_space_saved :: u64

text \<open>Every \<^verbatim>\<open>throw\<close> of the source, the \<^verbatim>\<open>std::length_error\<close> that \<^verbatim>\<open>vector::reserve\<close> throws
  for a size above \<^verbatim>\<open>max_size()\<close>, and the integer division by a zero \<^verbatim>\<open>total_count\<close>
  (undefined behaviour in C++, a trap on the usual targets).\<close>

datatype error =
  CannotOpenInput
  | CannotCreateOutput
  | InvalidFileFormat
  | UnexpectedEOF
  | LengthError
  | DivisionByZero

section \<open>Frequency model\<close>

text \<open>\<^verbatim>\<open>std::map<unsigned char, long long> freq\<close> with \<^verbatim>\<open>freq[byte]++\<close>: a missing key is
  created with value 0 first.\<close>

type_synonym freq_map = "byte \<rightharpoonup> u64"

definition freq_incr :: "freq_map \<Rightarrow> byte \<Rightarrow> freq_map" where
  "freq_incr freq b = freq(b \<mapsto> (case freq b of None \<Rightarrow> 0 | Some c \<Rightarrow> c) + 1)"

definition all_bytes :: "byte list" where
  "all_bytes = map of_nat [0..<256]"

text \<open>Iterating a \<^verbatim>\<open>std::map\<close> visits its entries in ascending key order.\<close>

definition map_items :: "freq_map \<Rightarrow> (byte \<times> u64) list" where
  "map_items freq =
     concat (map (\<lambda>k. case freq k of None \<Rightarrow> [] | Some c \<Rightarrow> [(k, c)]) all_bytes)"

text \<open>The loop body shared by \<^verbatim>\<open>buildFrequencyTable\<close> and \<^verbatim>\<open>buildSymbolsFromCounts\<close>:
  \<^verbatim>\<open>symbols.push_back({value, cumulative, cumulative + count, count}); cumulative += count;\<close>\<close>

fun push_symbols :: "(byte \<times> u64) list \<Rightarrow> u64 \<Rightarrow> Symbol list \<Rightarrow> Symbol list \<times> u64" where
  "push_symbols [] cumulative syms = (syms, cumulative)"
| "push_symbols ((v, c) # rest) cumulative syms =
     push_symbols rest (cumulative + c)
       (syms @ [\<lparr>sym_value = v, sym_low = cumulative, sym_high = cumulative + c, sym_count = c\<rparr>])"

definition buildFrequencyTable :: "byte list \<Rightarrow> ArithmeticEncoder \<Rightarrow> ArithmeticEncoder" where
  "buildFrequencyTable data enc =
     (let enc1 = enc\<lparr>symbols := []\<rparr>;
          freq = foldl freq_incr Map.empty data;
          enc2 = enc1\<lparr>total_count := of_nat (length data)\<rparr>;
          (syms, cumulative) = push_symbols (map_items freq) 0 (symbols enc2)
      in enc2\<lparr>symbols := syms\<rparr>)"

definition buildSymbolsFromCounts :: "(byte \<times> u64) list \<Rightarrow> ArithmeticEncoder \<Rightarrow> ArithmeticEncoder" where
  "buildSymbolsFromCounts counts enc =
     (let enc1 = enc\<lparr>symbols := []\<rparr>;
          enc2 = enc1\<lparr>total_count := 0\<rparr>;
          (syms, cumulative) = push_symbols counts 0 (symbols enc2)
      in enc2\<lparr>symbols := syms, total_count := cumulative\<rparr>)"

text \<open>\<^verbatim>\<open>decodeSymbol\<close>: the first entry whose range holds \<open>cum\<close>, byte 0 when there is none.\<close>

definition decodeSymbol :: "ArithmeticEncoder \<Rightarrow> u64 \<Rightarrow> byte" where
  "decodeSymbol enc cum =
     (case find (\<lambda>s. sym_low s \<le> cum \<and> cum < sym_high s) (symbols enc) of
        Some s \<Rightarrow> sym_value s
      | None \<Rightarrow> 0)"

section \<open>Bit stream adapter\<close>

record BitWriter =
  w_bytes :: "byte list"
  w_current :: byte
  w_bits_filled :: nat

definition new_writer :: BitWriter where
  "new_writer = \<lparr>w_bytes = [], w_current = 0, w_bits_filled = 0\<rparr>"

definition writeBit :: "bool \<Rightarrow> BitWriter \<Rightarrow> BitWriter" where
  "writeBit b w =
     (let current = push_bit 1 (w_current w) OR of_bool b;
          bits_filled = w_bits_filled w + 1
      in if bits_filled = 8
         then \<lparr>w_bytes = w_bytes w @ [current], w_current = 0, w_bits_filled = 0\<rparr>
         else \<lparr>w_bytes = w_bytes w, w_current = current, w_bits_filled = bits_filled\<rparr>)"

definition flush :: "BitWriter \<Rightarrow> BitWriter" where
  "flush w =
     (if w_bits_filled w > 0
      then \<lparr>w_bytes = w_bytes w @ [push_bit (8 - w_bits_filled w) (w_current w)],
            w_current = 0, w_bits_filled = 0\<rparr>
      else w)"

record BitReader =
  r_bytes :: "byte list"
  r_index :: nat
  r_current :: byte
  r_bits_left :: nat

definition new_reader :: "byte list \<Rightarrow> BitReader" where
  "new_reader data = \<lparr>r_bytes = data, r_index = 0, r_current = 0, r_bits_left = 0\<rparr>"

text \<open>\<^verbatim>\<open>readBit\<close> returns the bit and the reader after the call. At the end of the bytes it
  returns 0 and leaves the reader as it is.\<close>

definition take_top_bit :: "BitReader \<Rightarrow> bool \<times> BitReader" where
  "take_top_bit r =
     (bit (r_current r) 7,
      r\<lparr>r_current := push_bit 1 (r_current r), r_bits_left := r_bits_left r - 1\<rparr>)"

definition readBit :: "BitReader \<Rightarrow> bool \<times> BitReader" where
  "readBit r =
     (if r_bits_left r = 0
      then (if r_index r \<ge> length (r_bytes r)
            then (False, r)
            else take_top_bit
                   (r\<lparr>r_current := r_bytes r ! r_index r,
                      r_index := r_index r + 1,
                      r_bits_left := 8\<rparr>))
      else take_top_bit r)"

text \<open>\<open>read_bits n\<close>: \<open>n\<close> successive calls of \<^verbatim>\<open>readBit\<close>, the bits in the order read.\<close>

fun read_bits :: "nat \<Rightarrow> BitReader \<Rightarrow> bool list \<times> BitReader" where
  "read_bits 0 r = ([], r)"
| "read_bits (Suc n) r =
     (case readBit r of (b, r') \<Rightarrow>
        (case read_bits n r' of (bs, r'') \<Rightarrow> (b # bs, r'')))"

section \<open>Interval arithmetic engine\<close>

subsection \<open>Termination of the renormalisation loops\<close>

text \<open>
  The \<^verbatim>\<open>for (;;)\<close> loops of \<^verbatim>\<open>encodeData\<close> and \<^verbatim>\<open>decodeData\<close> test and update \<open>low\<close> and
  \<open>high\<close> in the same way. Every iteration doubles \<open>low - high - 1\<close> modulo \<open>2^32\<close>, and
  once that is 0 it doubles \<open>low\<close>; so the loops stop on every pair of 32-bit values.
  \<open>dbl_rank x\<close> is the number of doublings that take \<open>x\<close> to 0.
\<close>

definition dbl_rank :: "u32 \<Rightarrow> nat" where
  "dbl_rank x = (LEAST k. push_bit k x = 0)"

definition renorm_rel :: "((u32 \<times> u32) \<times> (u32 \<times> u32)) set" where
  "renorm_rel =
     inv_image (less_than <*lex*> less_than) (\<lambda>(l, h). (dbl_rank (l - h - 1), dbl_rank l))"

lemma dbl_rank_zero: "push_bit (dbl_rank x) x = 0"
  unfolding dbl_rank_def
proof (rule LeastI)
  show "push_bit 32 x = 0" by (rule push_bit_word_beyond) simp
qed

lemma dbl_rank_double:
  assumes nz: "x \<noteq> 0"
  shows "dbl_rank (2 * x) < dbl_rank x"
proof -
  have pos: "dbl_rank x \<noteq> 0"
  proof
    assume "dbl_rank x = 0"
    with dbl_rank_zero [of x] show False using nz by simp
  qed
  then obtain k where k: "dbl_rank x = Suc k" by (cases "dbl_rank x") auto
  have "push_bit k (2 * x) = push_bit (Suc k) x"
    by (simp add: push_bit_eq_mult)
  then have "push_bit k (2 * x) = 0" using dbl_rank_zero [of x] k by simp
  then have "dbl_rank (2 * x) \<le> k" unfolding dbl_rank_def by (rule Least_le)
  then show ?thesis using k by simp
qed

lemma wf_renorm_rel: "wf renorm_rel"
  unfolding renorm_rel_def by (intro wf_inv_image wf_lex_prod wf_less_than)

lemma renorm_rel_step:
  assumes "l - h - 1 = 0 \<Longrightarrow> l' = 2 * l \<and> l \<noteq> 0" and "l' - h' - 1 = 2 * (l - h - 1)"
  shows "((l', h'), (l, h)) \<in> renorm_rel"
proof (cases "l - h - 1 = 0")
  case True
  then have "l' - h' - 1 = 0" "l' = 2 * l" "l \<noteq> 0" using assms by auto
  then show ?thesis using True dbl_rank_double [of l] by (simp add: renorm_rel_def)
next
  case False
  have "dbl_rank (l' - h' - 1) < dbl_rank (l - h - 1)"
    using dbl_rank_double [OF False] by (simp add: assms(2))
  then show ?thesis by (simp add: renorm_rel_def)
qed

lemma shl_or1: "push_bit 1 (h::u32) OR 1 = 2 * h + 1"
  by (simp add: or_one_eq)

lemma diff_step:
  "push_bit 1 (l - c) - (push_bit 1 (h - c) OR 1) - 1 = 2 * (l - h - 1)" for l h c :: u32
  unfolding shl_or1 by (simp add: algebra_simps)

lemma succ_below_half:
  assumes l: "l = h + 1" and h: "h < HALF"
  shows "l \<noteq> 0"
proof -
  from h have "unat h < 2147483648" by (simp add: HALF_def word_less_nat_alt)
  then have "unat h + unat (1::u32) < 2 ^ LENGTH(32)" by simp
  then have "unat (h + 1) = unat h + unat (1::u32)" by (simp only: unat_add_lem)
  then have "unat l \<noteq> 0" using l by simp
  then show ?thesis by (simp add: unat_eq_0)
qed

lemma succ_straddle:
  assumes l: "l = h + 1" and h: "\<not> h < HALF" "\<not> HALF \<le> l" "FIRST_QTR \<le> l"
  shows False
proof -
  have 1: "2147483648 \<le> unat h" "unat l < 2147483648" "1073741824 \<le> unat l"
    using h by (simp_all add: HALF_def FIRST_QTR_def word_less_nat_alt word_le_nat_alt)
  have "unat l = (unat h + 1) mod 2 ^ 32" using l by (simp add: unat_word_ariths)
  moreover have "unat h < 2 ^ LENGTH(32)" by (rule unsigned_less)
  ultimately show False using 1 by (cases "unat h + 1 = 2 ^ 32") simp_all
qed

lemma twice_HALF: "2 * HALF = 0"
  by (simp add: HALF_def)

lemma shl_minus_HALF: "push_bit 1 (l - HALF) = 2 * l"
proof -
  have "push_bit 1 (l - HALF) = 2 * l - 2 * HALF" by (simp add: right_diff_distrib)
  then show ?thesis by (simp only: twice_HALF diff_zero)
qed

lemma E1_rel: "h < HALF \<Longrightarrow> ((push_bit 1 l, push_bit 1 h OR 1), (l, h)) \<in> renorm_rel"
proof (rule renorm_rel_step)
  assume h: "h < HALF"
  show "push_bit 1 l = 2 * l \<and> l \<noteq> 0" if "l - h - 1 = 0"
  proof -
    from that have "l = h + 1" by (simp add: algebra_simps)
    then have "l \<noteq> 0" using h by (rule succ_below_half)
    then show ?thesis by simp
  qed
  show "push_bit 1 l - (push_bit 1 h OR 1) - 1 = 2 * (l - h - 1)"
    using diff_step [of l 0 h] by simp
qed

lemma E2_rel:
  "HALF \<le> l \<Longrightarrow> ((push_bit 1 (l - HALF), push_bit 1 (h - HALF) OR 1), (l, h)) \<in> renorm_rel"
proof (rule renorm_rel_step)
  assume h: "HALF \<le> l"
  then have "l \<noteq> 0" by (auto simp: HALF_def)
  then show "push_bit 1 (l - HALF) = 2 * l \<and> l \<noteq> 0" if "l - h - 1 = 0"
    by (simp only: shl_minus_HALF simp_thms)
  show "push_bit 1 (l - HALF) - (push_bit 1 (h - HALF) OR 1) - 1 = 2 * (l - h - 1)"
    by (rule diff_step)
qed

lemma E3_rel:
  "\<not> h < HALF \<Longrightarrow> \<not> HALF \<le> l \<Longrightarrow> FIRST_QTR \<le> l \<Longrightarrow>
   ((push_bit 1 (l - FIRST_QTR), push_bit 1 (h - FIRST_QTR) OR 1), (l, h)) \<in> renorm_rel"
proof (rule renorm_rel_step)
  assume h: "\<not> h < HALF" "\<not> HALF \<le> l" "FIRST_QTR \<le> l"
  show "push_bit 1 (l - FIRST_QTR) = 2 * l \<and> l \<noteq> 0" if "l - h - 1 = 0"
  proof -
    from that have "l = h + 1" by (simp add: algebra_simps)
    then have False using h by (rule succ_straddle)
    then show ?thesis ..
  qed
  show "push_bit 1 (l - FIRST_QTR) - (push_bit 1 (h - FIRST_QTR) OR 1) - 1 = 2 * (l - h - 1)"
    by (rule diff_step)
qed

subsection \<open>Encoder\<close>

text \<open>\<^verbatim>\<open>while (bits_to_follow > 0) { writer.writeBit(b); bits_to_follow--; }\<close> writes
  \<open>unat bits_to_follow\<close> bits and leaves the counter at 0.\<close>

fun write_repeat :: "bool \<Rightarrow> nat \<Rightarrow> BitWriter \<Rightarrow> BitWriter" where
  "write_repeat b 0 w = w"
| "write_repeat b (Suc n) w = write_repeat b n (writeBit b w)"

definition write_follow :: "bool \<Rightarrow> u32 \<Rightarrow> BitWriter \<Rightarrow> BitWriter" where
  "write_follow b bits_to_follow w = write_repeat b (unat bits_to_follow) w"

text \<open>Lines 110 to 112: the 64-bit \<open>range\<close>, then \<open>high\<close> and \<open>low\<close>, both from the old \<open>low\<close>,
  cut to 32 bits. The caller has checked that the total is not 0.\<close>

definition encode_narrow :: "u64 \<Rightarrow> Symbol \<Rightarrow> u32 \<Rightarrow> u32 \<Rightarrow> u32 \<times> u32" where
  "encode_narrow total_cnt it low high =
     (let range = (ucast (high - low) :: u64) + 1;
          high' = (ucast ((ucast low :: u64) + (range * sym_high it) div total_cnt - 1) :: u32);
          low' = (ucast ((ucast low :: u64) + (range * sym_low it) div total_cnt) :: u32)
      in (low', high'))"

text \<open>The \<^verbatim>\<open>for (;;)\<close> loop of \<^verbatim>\<open>encodeData\<close> (E1, E2, E3 scaling).\<close>

function encode_renorm :: "u32 \<Rightarrow> u32 \<Rightarrow> u32 \<Rightarrow> BitWriter \<Rightarrow> u32 \<times> u32 \<times> u32 \<times> BitWriter" where
  "encode_renorm low high bits_to_follow writer =
     (if high < HALF then
        encode_renorm (push_bit 1 low) (push_bit 1 high OR 1) 0
          (write_follow True bits_to_follow (writeBit False writer))
      else if low \<ge> HALF then
        encode_renorm (push_bit 1 (low - HALF)) (push_bit 1 (high - HALF) OR 1) 0
          (write_follow False bits_to_follow (writeBit True writer))
      else if low \<ge> FIRST_QTR \<and> high < THIRD_QTR then
        encode_renorm (push_bit 1 (low - FIRST_QTR)) (push_bit 1 (high - FIRST_QTR) OR 1)
          (bits_to_follow + 1) writer
      else (low, high, bits_to_follow, writer))"
  by pat_completeness auto
termination
proof (relation "inv_image renorm_rel (\<lambda>(l, h, b, w). (l, h))")
  show "wf (inv_image renorm_rel (\<lambda>(l, h, b, w). (l, h)))"
    by (rule wf_inv_image) (rule wf_renorm_rel)
qed (auto simp only: in_inv_image prod.case intro: E1_rel E2_rel E3_rel)

declare encode_renorm.simps [simp del]

text \<open>The body of \<^verbatim>\<open>for (unsigned char byte : data)\<close>, on the state
  \<open>(low, high, bits_to_follow, writer)\<close>; a byte with no table entry is skipped.\<close>

fun encode_loop ::
  "ArithmeticEncoder \<Rightarrow> byte list \<Rightarrow> u32 \<times> u32 \<times> u32 \<times> BitWriter
     \<Rightarrow> error + (u32 \<times> u32 \<times> u32 \<times> BitWriter)" where
  "encode_loop enc [] st = Inr st"
| "encode_loop enc (byte # rest) (low, high, bits_to_follow, writer) =
     (case find (\<lambda>s. sym_value s = byte) (symbols enc) of
        None \<Rightarrow> encode_loop enc rest (low, high, bits_to_follow, writer)
      | Some it \<Rightarrow>
          if total_count enc = 0 then Inl DivisionByZero
          else (case encode_narrow (total_count enc) it low high of
                  (low', high') \<Rightarrow>
                    encode_loop enc rest (encode_renorm low' high' bits_to_follow writer)))"

text \<open>After the loop: \<^verbatim>\<open>bits_to_follow++\<close>, one deciding bit, then \<open>bits_to_follow\<close> opposite
  bits (\<^verbatim>\<open>while (bits_to_follow-- > 0)\<close>), then \<^verbatim>\<open>flush\<close>.\<close>

definition encode_finish :: "u32 \<times> u32 \<times> u32 \<times> BitWriter \<Rightarrow> BitWriter" where
  "encode_finish st =
     (case st of (low, high, bits_to_follow, writer) \<Rightarrow>
        (let bits_to_follow = bits_to_follow + 1 in
         flush (if low < FIRST_QTR
                then write_follow True bits_to_follow (writeBit False writer)
                else write_follow False bits_to_follow (writeBit True writer))))"

definition encodeData :: "ArithmeticEncoder \<Rightarrow> byte list \<Rightarrow> BitWriter \<Rightarrow> error + BitWriter" where
  "encodeData enc data writer =
     (case encode_loop enc data (0, MAX_RANGE, 0, writer) of
        Inl e \<Rightarrow> Inl e
      | Inr st \<Rightarrow> Inr (encode_finish st))"

subsection \<open>Decoder\<close>

text \<open>\<^verbatim>\<open>for (int i = 0; i < 32; i++) value = (value << 1) | reader.readBit();\<close>\<close>

fun read_value :: "nat \<Rightarrow> u32 \<Rightarrow> BitReader \<Rightarrow> u32 \<times> BitReader" where
  "read_value 0 v r = (v, r)"
| "read_value (Suc n) v r =
     (case readBit r of (b, r') \<Rightarrow> read_value n (push_bit 1 v OR of_bool b) r')"

text \<open>Line 182, in 64 bits.\<close>

definition decode_cum :: "u64 \<Rightarrow> u32 \<Rightarrow> u32 \<Rightarrow> u32 \<Rightarrow> u64" where
  "decode_cum total_cnt low high v =
     (let range = (ucast (high - low) :: u64) + 1
      in (((ucast (v - low) :: u64) + 1) * total_cnt - 1) div range)"

text \<open>Lines 181, 190 and 191.\<close>

definition decode_narrow :: "u64 \<Rightarrow> Symbol \<Rightarrow> u32 \<Rightarrow> u32 \<Rightarrow> u32 \<times> u32" where
  "decode_narrow total_cnt it low high =
     (let range = (ucast (high - low) :: u64) + 1;
          high' = (ucast ((ucast low :: u64) + (range * sym_high it) div total_cnt - 1) :: u32);
          low' = (ucast ((ucast low :: u64) + (range * sym_low it) div total_cnt) :: u32)
      in (low', high'))"

text \<open>The \<^verbatim>\<open>for (;;)\<close> loop of \<^verbatim>\<open>decodeData\<close>: E1 changes nothing before the shift.\<close>

function decode_renorm :: "u32 \<Rightarrow> u32 \<Rightarrow> u32 \<Rightarrow> BitReader \<Rightarrow> u32 \<times> u32 \<times> u32 \<times> BitReader" where
  "decode_renorm low high v reader =
     (if high < HALF then
        (case readBit reader of (b, reader') \<Rightarrow>
           decode_renorm (push_bit 1 low) (push_bit 1 high OR 1)
             (push_bit 1 v OR of_bool b) reader')
      else if low \<ge> HALF then
        (case readBit reader of (b, reader') \<Rightarrow>
           decode_renorm (push_bit 1 (low - HALF)) (push_bit 1 (high - HALF) OR 1)
             (push_bit 1 (v - HALF) OR of_bool b) reader')
      else if low \<ge> FIRST_QTR \<and> high < THIRD_QTR then
        (case readBit reader of (b, reader') \<Rightarrow>
           decode_renorm (push_bit 1 (low - FIRST_QTR)) (push_bit 1 (high - FIRST_QTR) OR 1)
             (push_bit 1 (v - FIRST_QTR) OR of_bool b) reader')
      else (low, high, v, reader))"
  by pat_completeness auto
termination
proof (relation "inv_image renorm_rel (\<lambda>(l, h, v, r). (l, h))")
  show "wf (inv_image renorm_rel (\<lambda>(l, h, v, r). (l, h)))"
    by (rule wf_inv_image) (rule wf_renorm_rel)
qed (auto simp only: in_inv_image prod.case intro: E1_rel E2_rel E3_rel)

declare decode_renorm.simps [simp del]

text \<open>\<open>decode_loop n\<close>: \<open>n\<close> iterations of \<^verbatim>\<open>for (uint64_t i = 0; i < original_size; i++)\<close> on
  the state \<open>(low, high, value, reader)\<close> and the output so far.\<close>

fun decode_loop ::
  "ArithmeticEncoder \<Rightarrow> nat \<Rightarrow> u32 \<times> u32 \<times> u32 \<times> BitReader \<Rightarrow> byte list
     \<Rightarrow> error + byte list" where
  "decode_loop enc 0 st output = Inr output"
| "decode_loop enc (Suc n) (low, high, v, reader) output =
     (let cum = decode_cum (total_count enc) low high v;
          symbol_value = decodeSymbol enc cum;
          output = output @ [symbol_value]
      in case find (\<lambda>s. sym_value s = symbol_value) (symbols enc) of
           None \<Rightarrow> decode_loop enc n (low, high, v, reader) output
         | Some it \<Rightarrow>
             if total_count enc = 0 then Inl DivisionByZero
             else (case decode_narrow (total_count enc) it low high of
                     (low', high') \<Rightarrow>
                       decode_loop enc n (decode_renorm low' high' v reader) output))"

definition decodeData ::
  "ArithmeticEncoder \<Rightarrow> BitReader \<Rightarrow> byte list \<Rightarrow> u64 \<Rightarrow> error + byte list" where
  "decodeData enc reader output original_size =
     (case read_value 32 0 reader of
        (v, reader') \<Rightarrow> decode_loop enc (unat original_size) (0, MAX_RANGE, v, reader') output)"

section \<open>File format\<close>

text \<open>
  A file is the list of its bytes; an input stream is the list of the bytes not yet read.
  \<open>None\<close> for the input means that the file cannot be opened, and the flag \<open>can_create\<close>
  says whether the output file can be created.
\<close>

definition magic :: "byte list" where
  "magic = [0x41, 0x52, 0x49, 0x54]"

definition writeUint64 :: "u64 \<Rightarrow> byte list" where
  "writeUint64 v = map (\<lambda>i. ucast (drop_bit (56 - 8 * i) v AND 0xFF)) [0..<8]"

definition writeUint32 :: "u32 \<Rightarrow> byte list" where
  "writeUint32 v = map (\<lambda>i. ucast (drop_bit (24 - 8 * i) v AND 0xFF)) [0..<4]"

text \<open>The loops of \<^verbatim>\<open>readUint64\<close> and \<^verbatim>\<open>readUint32\<close>: \<open>n\<close> times \<^verbatim>\<open>in.get()\<close>, which throws
  at the end of the file, and \<^verbatim>\<open>v = (v << 8) | c\<close>.\<close>

fun read_be :: "nat \<Rightarrow> 'a::len word \<Rightarrow> byte list \<Rightarrow> error + ('a word \<times> byte list)" where
  "read_be 0 v ins = Inr (v, ins)"
| "read_be (Suc n) v [] = Inl UnexpectedEOF"
| "read_be (Suc n) v (c # ins) = read_be n (push_bit 8 v OR ucast c) ins"

definition readUint64 :: "byte list \<Rightarrow> error + (u64 \<times> byte list)" where
  "readUint64 ins = read_be 8 0 ins"

definition readUint32 :: "byte list \<Rightarrow> error + (u32 \<times> byte list)" where
  "readUint32 ins = read_be 4 0 ins"

text \<open>The table loop of \<^verbatim>\<open>decompress\<close>, \<open>n\<close> iterations.\<close>

fun read_counts ::
  "nat \<Rightarrow> byte list \<Rightarrow> (byte \<times> u64) list \<Rightarrow> error + ((byte \<times> u64) list \<times> byte list)" where
  "read_counts 0 ins counts = Inr (counts, ins)"
| "read_counts (Suc n) [] counts = Inl UnexpectedEOF"
| "read_counts (Suc n) (v # ins) counts =
     (case readUint64 ins of
        Inl e \<Rightarrow> Inl e
      | Inr (c, ins') \<Rightarrow> read_counts n ins' (counts @ [(v, c)]))"

text \<open>\<^verbatim>\<open>compress\<close> returns the bytes of the output file, the statistics and the object after
  the call.\<close>

definition compress ::
  "ArithmeticEncoder \<Rightarrow> byte list option \<Rightarrow> bool
     \<Rightarrow> error + (byte list \<times> Statistics \<times> ArithmeticEncoder)" where
  "compress enc input_file can_create =
     (case input_file of
        None \<Rightarrow> Inl CannotOpenInput
      | Some data \<Rightarrow>
          (let original_size = (of_nat (length data) :: u64);
               enc' = buildFrequencyTable data enc
           in case encodeData enc' data new_writer of
                Inl e \<Rightarrow> Inl e
              | Inr writer \<Rightarrow>
                  if \<not> can_create then Inl CannotCreateOutput
                  else
                    (let outfile =
                           magic @ writeUint64 original_size
                           @ writeUint32 (of_nat (length (symbols enc')))
                           @ concat (map (\<lambda>s. sym_value s # writeUint64 (sym_count s))
                                       (symbols enc'))
                           @ w_bytes writer;
                         compressed_size =
                           (of_nat (length (w_bytes writer)) :: u64) + 4 + 8 + 4
                           + of_nat (length (symbols enc')) * (1 + 8)
                     in Inr (outfile,
                             \<lparr>stat_original_size = original_size,
                              stat_compressed_size = compressed_size,
                              stat_space_saved = original_size - compressed_size\<rparr>,
                             enc'))))"

text \<open>
  \<^verbatim>\<open>max_size()\<close> of \<^verbatim>\<open>std::vector<unsigned char>\<close> where \<^verbatim>\<open>size_t\<close> has 64 bits: \<^verbatim>\<open>PTRDIFF_MAX\<close>,
  that is \<open>2^63 - 1\<close>.
\<close>

definition max_size :: u64 where
  "max_size = 0x7FFFFFFFFFFFFFFF"

text \<open>
  \<^verbatim>\<open>decompress\<close> returns the bytes written to the output file and the object after the
  call. \<^verbatim>\<open>decoded.reserve(static_cast<size_t>(original_size))\<close> (line 321) throws
  \<^verbatim>\<open>std::length_error\<close> when \<^verbatim>\<open>original_size\<close> exceeds \<^verbatim>\<open>max_size()\<close>, after the table is built and
  before any byte is decoded. \<^verbatim>\<open>counts.reserve(symbol_count)\<close> (line 305) cannot: a 32-bit
  \<^verbatim>\<open>symbol_count\<close> is below the \<^verbatim>\<open>max_size()\<close> of a vector of 16-byte pairs. An allocation
  within \<^verbatim>\<open>max_size()\<close> is taken to be granted: the memory of the machine is not modelled.
\<close>

definition decompress ::
  "ArithmeticEncoder \<Rightarrow> byte list option \<Rightarrow> bool \<Rightarrow> error + (byte list \<times> ArithmeticEncoder)" where
  "decompress enc input_file can_create =
     (case input_file of
        None \<Rightarrow> Inl CannotOpenInput
      | Some infile \<Rightarrow>
          if length (take 4 infile) \<noteq> 4 \<or> take 4 infile \<noteq> magic then Inl InvalidFileFormat
          else
            (case readUint64 (drop 4 infile) of
               Inl e \<Rightarrow> Inl e
             | Inr (original_size, in1) \<Rightarrow>
                 (case readUint32 in1 of
                    Inl e \<Rightarrow> Inl e
                  | Inr (symbol_count, in2) \<Rightarrow>
                      (case read_counts (unat symbol_count) in2 [] of
                         Inl e \<Rightarrow> Inl e
                       | Inr (counts, bitstream) \<Rightarrow>
                           (let enc' = buildSymbolsFromCounts counts enc
                            in if max_size < original_size then Inl LengthError
                               else
                                 (case decodeData enc' (new_reader bitstream) [] original_size of
                                    Inl e \<Rightarrow> Inl e
                                  | Inr decoded \<Rightarrow>
                                      if \<not> can_create then Inl CannotCreateOutput
                                      else Inr (decoded, enc')))))))"

section \<open>Bit streams\<close>

text \<open>
  The bits of a byte list, most significant bit of each byte first, and the bit at
  position \<open>k\<close> of a bit list continued by zeros. \<open>reader_stream r i\<close> is the bit that the
  \<open>i\<close>-th coming call of \<^verbatim>\<open>readBit\<close> returns.
\<close>

definition bits_of_byte :: "byte \<Rightarrow> bool list" where
  "bits_of_byte b = map (\<lambda>i. bit b (7 - i)) [0..<8]"

definition bits_of_bytes :: "byte list \<Rightarrow> bool list" where
  "bits_of_bytes bs = concat (map bits_of_byte bs)"

definition stream_bit :: "bool list \<Rightarrow> nat \<Rightarrow> bool" where
  "stream_bit bs k = (k < length bs \<and> bs ! k)"

definition reader_stream :: "BitReader \<Rightarrow> nat \<Rightarrow> bool" where
  "reader_stream r i =
     (if i < r_bits_left r then bit (r_current r) (7 - i)
      else stream_bit (bits_of_bytes (drop (r_index r) (r_bytes r))) (i - r_bits_left r))"

lemma length_bits_of_byte [simp]: "length (bits_of_byte b) = 8"
  by (simp add: bits_of_byte_def)

lemma length_bits_of_bytes [simp]: "length (bits_of_bytes bs) = 8 * length bs"
  by (induction bs) (simp_all add: bits_of_bytes_def)

lemma bits_of_bytes_Cons: "bits_of_bytes (b # bs) = bits_of_byte b @ bits_of_bytes bs"
  by (simp add: bits_of_bytes_def)

lemma nth_bits_of_byte: "i < 8 \<Longrightarrow> bits_of_byte b ! i = bit b (7 - i)"
  by (simp add: bits_of_byte_def)

lemma stream_bit_bytes:
  "stream_bit (bits_of_bytes bs) k = (k < 8 * length bs \<and> bit (bs ! (k div 8)) (7 - k mod 8))"
proof (induction bs arbitrary: k)
  case Nil
  then show ?case by (simp add: stream_bit_def bits_of_bytes_def)
next
  case (Cons b bs)
  show ?case
  proof (cases "k < 8")
    case True
    then show ?thesis
      by (simp add: stream_bit_def bits_of_bytes_Cons nth_append nth_bits_of_byte)
  next
    case False
    then obtain j where j: "k = 8 + j" by (metis le_add_diff_inverse not_less)
    have "stream_bit (bits_of_bytes (b # bs)) k = stream_bit (bits_of_bytes bs) j"
      using j by (simp add: stream_bit_def bits_of_bytes_Cons nth_append)
    then show ?thesis using Cons.IH [of j] j by (simp add: div_add1_eq)
  qed
qed

lemma bit_shl1: "bit (push_bit 1 (c::byte)) (Suc n) = (n < 7 \<and> bit c n)"
  unfolding bit_push_bit_iff by auto

lemma take_top_bit_stream:
  assumes "0 < r_bits_left r" "r_bits_left r \<le> 8"
  shows "fst (take_top_bit r) = reader_stream r 0"
    and "reader_stream (snd (take_top_bit r)) i = reader_stream r (Suc i)"
    and "r_bits_left (snd (take_top_bit r)) \<le> 8"
    and "r_bytes (snd (take_top_bit r)) = r_bytes r"
proof -
  show "fst (take_top_bit r) = reader_stream r 0"
    using assms by (simp add: take_top_bit_def reader_stream_def)
  show "r_bits_left (snd (take_top_bit r)) \<le> 8"
    using assms by (simp add: take_top_bit_def)
  show "r_bytes (snd (take_top_bit r)) = r_bytes r"
    by (simp add: take_top_bit_def)
  show "reader_stream (snd (take_top_bit r)) i = reader_stream r (Suc i)"
  proof (cases "Suc i < r_bits_left r")
    case True
    then have e: "7 - i = Suc (7 - Suc i)" and l: "7 - Suc i < 7" "i < r_bits_left r - 1"
      using assms by arith+
    have "bit (push_bit 1 (r_current r)) (7 - i) = bit (r_current r) (7 - Suc i)"
      unfolding e bit_shl1 using l by simp
    then show ?thesis using True l
      by (simp add: take_top_bit_def reader_stream_def del: push_bit_of_Suc_0)
  next
    case False
    then show ?thesis using assms
      by (auto simp add: take_top_bit_def reader_stream_def Suc_diff_le)
  qed
qed

lemma readBit_stream:
  assumes "r_bits_left r \<le> 8"
  shows "fst (readBit r) = reader_stream r 0"
    and "reader_stream (snd (readBit r)) i = reader_stream r (Suc i)"
    and "r_bits_left (snd (readBit r)) \<le> 8"
    and "r_bytes (snd (readBit r)) = r_bytes r"
proof -
  let ?r1 = "r\<lparr>r_current := r_bytes r ! r_index r, r_index := r_index r + 1, r_bits_left := 8\<rparr>"
  have ld: "reader_stream ?r1 j = reader_stream r j"
    if "r_bits_left r = 0" "r_index r < length (r_bytes r)" for j
  proof -
    have d: "drop (r_index r) (r_bytes r) = r_bytes r ! r_index r # drop (Suc (r_index r)) (r_bytes r)"
      using that by (simp add: Cons_nth_drop_Suc)
    show ?thesis using that
      by (auto simp add: reader_stream_def d bits_of_bytes_Cons stream_bit_def nth_append nth_bits_of_byte)
  qed
  consider (stop) "r_bits_left r = 0" "r_index r \<ge> length (r_bytes r)"
    | (load) "r_bits_left r = 0" "r_index r < length (r_bytes r)"
    | (cont) "0 < r_bits_left r" by linarith
  then have "fst (readBit r) = reader_stream r 0 \<and>
     reader_stream (snd (readBit r)) i = reader_stream r (Suc i) \<and>
     r_bits_left (snd (readBit r)) \<le> 8 \<and> r_bytes (snd (readBit r)) = r_bytes r"
  proof cases
    case stop
    then show ?thesis
      by (simp add: readBit_def reader_stream_def stream_bit_def bits_of_bytes_def)
  next
    case load
    have a: "0 < r_bits_left ?r1" "r_bits_left ?r1 \<le> 8" by simp_all
    have rb: "readBit r = take_top_bit ?r1" using load by (simp add: readBit_def)
    show ?thesis unfolding rb
      using take_top_bit_stream [OF a] ld [OF load] by simp
  next
    case cont
    then have rb: "readBit r = take_top_bit r" by (simp add: readBit_def)
    show ?thesis unfolding rb using take_top_bit_stream [OF cont assms] by simp
  qed
  then show "fst (readBit r) = reader_stream r 0"
    and "reader_stream (snd (readBit r)) i = reader_stream r (Suc i)"
    and "r_bits_left (snd (readBit r)) \<le> 8"
    and "r_bytes (snd (readBit r)) = r_bytes r" by simp_all
qed

lemma new_reader_stream: "reader_stream (new_reader bs) = stream_bit (bits_of_bytes bs)"
  by (rule ext) (simp add: reader_stream_def new_reader_def)

lemma read_bits_stream:
  assumes "r_bits_left r \<le> 8"
  shows "fst (read_bits n r) = map (reader_stream r) [0..<n]
     \<and> (\<forall>i. reader_stream (snd (read_bits n r)) i = reader_stream r (n + i))
     \<and> r_bits_left (snd (read_bits n r)) \<le> 8"
  using assms
proof (induction n arbitrary: r)
  case 0
  then show ?case by simp
next
  case (Suc n)
  obtain b r' where rb: "readBit r = (b, r')" by (cases "readBit r")
  have b: "b = reader_stream r 0" and s: "\<And>i. reader_stream r' i = reader_stream r (Suc i)"
    and w: "r_bits_left r' \<le> 8"
    using readBit_stream [OF Suc.prems] rb by simp_all
  obtain bs r'' where rn: "read_bits n r' = (bs, r'')" by (cases "read_bits n r'")
  from Suc.IH [OF w] rn have ih: "bs = map (reader_stream r') [0..<n]"
     "\<And>i. reader_stream r'' i = reader_stream r' (n + i)" "r_bits_left r'' \<le> 8" by simp_all
  have "map (reader_stream r) [0..<Suc n] = reader_stream r 0 # map (reader_stream r') [0..<n]"
    by (simp add: s upt_conv_Cons map_Suc_upt [symmetric] del: upt_Suc)
  then show ?case using rb rn ih b s by simp
qed

text \<open>
  Claim C9. The \<open>k\<close>-th call of \<^verbatim>\<open>readBit\<close> on a fresh reader over \<open>bs\<close> (counting from 0)
  returns bit \<open>7 - k mod 8\<close> of byte \<open>k div 8\<close>, so bytes are read in order and each byte
  most significant bit first; every call past the \<open>8 * length bs\<close>-th bit returns 0.
\<close>

theorem readBit_msb_first_zero_padded:
  "fst (readBit (snd (read_bits k (new_reader bs)))) =
     (if k < 8 * length bs then bit (bs ! (k div 8)) (7 - k mod 8) else False)"
proof -
  have w: "r_bits_left (new_reader bs) \<le> 8" by (simp add: new_reader_def)
  from read_bits_stream [OF w, of k]
  have 1: "reader_stream (snd (read_bits k (new_reader bs))) 0 = reader_stream (new_reader bs) k"
    and 2: "r_bits_left (snd (read_bits k (new_reader bs))) \<le> 8" by simp_all
  show ?thesis
    using readBit_stream(1) [OF 2] 1 by (simp add: new_reader_stream stream_bit_bytes)
qed

theorem readBit_msb_first_zero_padded_witness:
  "fst (readBit (snd (read_bits 0 (new_reader [0xA5])))) = True
   \<and> fst (readBit (snd (read_bits 1 (new_reader [0xA5])))) = False
   \<and> fst (readBit (snd (read_bits 9 (new_reader [0xA5])))) = False"
  using readBit_msb_first_zero_padded [of 0 "[0xA5]"]
    readBit_msb_first_zero_padded [of 1 "[0xA5]"]
    readBit_msb_first_zero_padded [of 9 "[0xA5]"]
  by simp

section \<open>Properties of the frequency model\<close>

text \<open>\<open>cum_ranges c xs\<close> lists the entries that the table loop pushes for the counts \<open>xs\<close>,
  starting with the cumulative count \<open>c\<close>.\<close>

fun cum_ranges :: "u64 \<Rightarrow> (byte \<times> u64) list \<Rightarrow> Symbol list" where
  "cum_ranges c [] = []"
| "cum_ranges c ((v, n) # xs) =
     \<lparr>sym_value = v, sym_low = c, sym_high = c + n, sym_count = n\<rparr> # cum_ranges (c + n) xs"

lemma push_symbols_eq:
  "push_symbols xs c syms = (syms @ cum_ranges c xs, c + sum_list (map snd xs))"
  by (induction xs c syms rule: push_symbols.induct) (simp_all add: add.assoc)

lemma symbols_buildSymbolsFromCounts:
  "symbols (buildSymbolsFromCounts counts enc) = cum_ranges 0 counts"
  and total_buildSymbolsFromCounts:
  "total_count (buildSymbolsFromCounts counts enc) = sum_list (map snd counts)"
  by (simp_all add: buildSymbolsFromCounts_def push_symbols_eq)

lemma symbols_buildFrequencyTable:
  "symbols (buildFrequencyTable data enc) = cum_ranges 0 (map_items (foldl freq_incr Map.empty data))"
  and total_buildFrequencyTable:
  "total_count (buildFrequencyTable data enc) = of_nat (length data)"
  by (simp_all add: buildFrequencyTable_def push_symbols_eq)

lemma map_sym_value_cum_ranges [simp]: "map sym_value (cum_ranges c xs) = map fst xs"
  by (induction c xs rule: cum_ranges.induct) simp_all

lemma map_sym_count_cum_ranges [simp]: "map sym_count (cum_ranges c xs) = map snd xs"
  by (induction c xs rule: cum_ranges.induct) simp_all

lemma length_cum_ranges [simp]: "length (cum_ranges c xs) = length xs"
  by (induction c xs rule: cum_ranges.induct) simp_all

subsection \<open>The tally\<close>

definition tally_of :: "freq_map \<Rightarrow> byte \<Rightarrow> u64" where
  "tally_of m k = (case m k of None \<Rightarrow> 0 | Some c \<Rightarrow> c)"

lemma foldl_freq_incr:
  "foldl freq_incr m data k =
     (if k \<in> set data then Some (tally_of m k + of_nat (count_list data k)) else m k)"
proof (induction data arbitrary: m)
  case Nil
  then show ?case by simp
next
  case (Cons b data)
  show ?case
    unfolding foldl_Cons Cons.IH
    by (auto simp add: freq_incr_def tally_of_def split: option.splits)
qed

lemma tally_empty:
  "foldl freq_incr Map.empty data k =
     (if k \<in> set data then Some (of_nat (count_list data k)) else None)"
  by (simp add: foldl_freq_incr tally_of_def)

lemma map_items_tally:
  "map_items (foldl freq_incr Map.empty data) =
     map (\<lambda>k. (k, of_nat (count_list data k))) (filter (\<lambda>k. k \<in> set data) all_bytes)"
proof -
  have "concat (map (\<lambda>k. case (if P k then Some (f k) else None) of None \<Rightarrow> [] | Some c \<Rightarrow> [(k, c)]) ks)
      = map (\<lambda>k. (k, f k)) (filter P ks)" for P :: "byte \<Rightarrow> bool" and f :: "byte \<Rightarrow> u64" and ks
    by (induction ks) simp_all
  then show ?thesis by (simp add: map_items_def tally_empty)
qed

subsection \<open>All byte values in ascending order\<close>

lemma set_all_bytes: "set all_bytes = UNIV"
proof -
  have "b \<in> set all_bytes" for b :: byte
  proof -
    have "unat b < 256" using unsigned_less [of b, where 'a = nat] by simp
    moreover have "b = of_nat (unat b)" by simp
    ultimately show ?thesis unfolding all_bytes_def by (metis atLeast0LessThan imageI image_set lessThan_iff set_upt)
  qed
  then show ?thesis by auto
qed

lemma unat_all_bytes: "map unat all_bytes = [0..<256]"
proof -
  have "unat (of_nat i :: byte) = i" if "i \<in> set [0..<256]" for i
    using that by (simp add: unat_of_nat)
  then have "map (\<lambda>i. unat (of_nat i :: byte)) [0..<256] = map (\<lambda>i. i) [0..<256]"
    by (intro map_cong) (rule refl)
  then show ?thesis by (simp add: all_bytes_def comp_def)
qed

lemma sorted_all_bytes: "sorted_wrt (<) all_bytes"
proof -
  have "sorted_wrt (<) (map unat all_bytes)" unfolding unat_all_bytes by simp
  then show ?thesis by (simp add: sorted_wrt_map word_less_nat_alt [symmetric])
qed

lemma distinct_all_bytes: "distinct all_bytes"
  using sorted_all_bytes by (simp add: strict_sorted_iff)

subsection \<open>The partition invariant\<close>

text \<open>\<open>contiguous c syms t\<close>: the entries cover \<open>[c, t)\<close> in order, each starting where the one
  before ends, with \<open>high = low + count\<close> without wrap-around.\<close>

fun contiguous :: "nat \<Rightarrow> Symbol list \<Rightarrow> nat \<Rightarrow> bool" where
  "contiguous c [] t = (c = t)"
| "contiguous c (s # syms) t =
     (unat (sym_low s) = c \<and> unat (sym_high s) = c + unat (sym_count s)
      \<and> contiguous (c + unat (sym_count s)) syms t)"

text \<open>\<open>holds x s\<close>: the cumulative value \<open>x\<close> lies in the range of entry \<open>s\<close>.\<close>

definition holds :: "nat \<Rightarrow> Symbol \<Rightarrow> bool" where
  "holds x s = (unat (sym_low s) \<le> x \<and> x < unat (sym_high s))"

definition model_inv :: "ArithmeticEncoder \<Rightarrow> bool" where
  "model_inv enc =
     (let syms = symbols enc; t = unat (total_count enc) in
        sum_list (map (\<lambda>s. unat (sym_count s)) syms) = t
        \<and> (\<forall>s \<in> set syms. unat (sym_high s) = unat (sym_low s) + unat (sym_count s))
        \<and> contiguous 0 syms t
        \<and> (\<forall>x < t. length (filter (holds x) syms) = 1))"

lemma contiguous_le: "contiguous c syms t \<Longrightarrow> c \<le> t"
proof (induction syms arbitrary: c)
  case Nil
  then show ?case by simp
next
  case (Cons a syms)
  then have "c + unat (sym_count a) \<le> t" by simp
  then show ?case by simp
qed

lemma contiguous_sum:
  "contiguous c syms t \<Longrightarrow> c + sum_list (map (\<lambda>s. unat (sym_count s)) syms) = t"
proof (induction syms arbitrary: c)
  case Nil
  then show ?case by simp
next
  case (Cons a syms)
  then have "c + unat (sym_count a) + sum_list (map (\<lambda>s. unat (sym_count s)) syms) = t" by simp
  then show ?case by simp
qed

lemma contiguous_entry:
  "contiguous c syms t \<Longrightarrow> s \<in> set syms \<Longrightarrow>
     c \<le> unat (sym_low s) \<and> unat (sym_high s) = unat (sym_low s) + unat (sym_count s)
     \<and> unat (sym_high s) \<le> t"
proof (induction syms arbitrary: c)
  case Nil
  then show ?case by simp
next
  case (Cons a syms)
  show ?case
  proof (cases "s = a")
    case True
    then show ?thesis using Cons.prems contiguous_le [of "c + unat (sym_count a)" syms t] by auto
  next
    case False
    then have "s \<in> set syms" using Cons.prems by simp
    with Cons.IH [of "c + unat (sym_count a)"] Cons.prems show ?thesis by auto
  qed
qed

lemma contiguous_holds:
  "contiguous c syms t \<Longrightarrow> length (filter (holds x) syms) = (if c \<le> x \<and> x < t then 1 else 0)"
proof (induction syms arbitrary: c)
  case Nil
  then show ?case by auto
next
  case (Cons a syms)
  then have r: "contiguous (c + unat (sym_count a)) syms t"
    and a: "unat (sym_low a) = c" "unat (sym_high a) = c + unat (sym_count a)" by simp_all
  have le: "c + unat (sym_count a) \<le> t" using r by (rule contiguous_le)
  show ?case using Cons.IH [OF r] a le by (auto simp add: holds_def)
qed

lemma contiguous_cum_ranges:
  "unat c + sum_list (map (\<lambda>p. unat (snd p)) xs) < 2 ^ 64 \<Longrightarrow>
     contiguous (unat c) (cum_ranges c xs) (unat c + sum_list (map (\<lambda>p. unat (snd p)) xs))"
proof (induction c xs rule: cum_ranges.induct)
  case (1 c)
  then show ?case by simp
next
  case (2 c v n xs)
  have lt: "unat c + unat n < 2 ^ LENGTH(64)" using 2(2) by simp
  then have e: "unat (c + n) = unat c + unat n" by (simp only: unat_add_lem)
  show ?case using "2.IH" "2.prems" by (simp add: e add.assoc)
qed

lemma unat_sum_list:
  "sum_list (map unat xs) < 2 ^ 64 \<Longrightarrow> unat (sum_list xs :: u64) = sum_list (map unat xs)"
proof (induction xs)
  case Nil
  then show ?case by simp
next
  case (Cons a xs)
  then have ih: "unat (sum_list xs) = sum_list (map unat xs)" by simp
  have "unat a + unat (sum_list xs) < 2 ^ LENGTH(64)" using Cons.prems ih by simp
  then have "unat (a + sum_list xs) = unat a + unat (sum_list xs)" by (simp only: unat_add_lem)
  then show ?case using ih by simp
qed

lemma model_inv_cum_ranges:
  assumes "sum_list (map (\<lambda>p. unat (snd p)) xs) < 2 ^ 64"
    and "symbols enc = cum_ranges 0 xs" and "total_count enc = sum_list (map snd xs)"
  shows "model_inv enc"
proof -
  let ?t = "sum_list (map (\<lambda>p. unat (snd p)) xs)"
  have m: "map unat (map snd xs) = map (\<lambda>p. unat (snd p)) xs" by simp
  have t: "unat (total_count enc) = ?t"
    using unat_sum_list [of "map snd xs"] assms(1,3) by (simp add: comp_def)
  have c: "contiguous 0 (symbols enc) ?t"
    using contiguous_cum_ranges [of 0 xs] assms(1,2) by simp
  have s: "sum_list (map (\<lambda>s. unat (sym_count s)) (symbols enc)) = ?t"
    using contiguous_sum [OF c] by simp
  have e: "\<forall>s \<in> set (symbols enc). unat (sym_high s) = unat (sym_low s) + unat (sym_count s)"
    using contiguous_entry [OF c] by blast
  have h: "\<forall>x < ?t. length (filter (holds x) (symbols enc)) = 1"
    using contiguous_holds [OF c] by simp
  show ?thesis unfolding model_inv_def Let_def t using s e c h by blast
qed

subsection \<open>Counts of a model built from data\<close>

lemma sum_count_bytes:
  "sum_list (map (count_list data) (filter (\<lambda>k. k \<in> set data) all_bytes)) = length data"
proof -
  have d: "distinct (filter (\<lambda>k. k \<in> set data) all_bytes)"
    using distinct_all_bytes by simp
  have s: "set (filter (\<lambda>k. k \<in> set data) all_bytes) = set data"
    using set_all_bytes by auto
  have "sum_list (map (count_list data) (filter (\<lambda>k. k \<in> set data) all_bytes))
      = sum (count_list data) (set data)"
    using sum_list_distinct_conv_sum_set [OF d, of "count_list data"] s by simp
  also have "\<dots> = length data" by (rule sum_count_set) simp_all
  finally show ?thesis .
qed

lemma count_list_le_length: "count_list xs k \<le> length xs"
  by (induction xs) auto

lemma unat_count:
  assumes "length data < 2 ^ 64"
  shows "unat (of_nat (count_list data k) :: u64) = count_list data k"
proof -
  have "count_list data k < 2 ^ 64" using count_list_le_length [of data k] assms by simp
  then show ?thesis by (simp add: unat_of_nat)
qed

lemma sum_items_tally:
  assumes "length data < 2 ^ 64"
  shows "sum_list (map (\<lambda>p. unat (snd p)) (map_items (foldl freq_incr Map.empty data))) = length data"
  by (simp add: map_items_tally comp_def unat_count [OF assms] sum_count_bytes)

lemma of_nat_sum_list: "(of_nat (sum_list xs) :: u64) = sum_list (map of_nat xs)"
  by (induction xs) simp_all

lemma word_sum_items_tally:
  "sum_list (map snd (map_items (foldl freq_incr Map.empty data))) = (of_nat (length data) :: u64)"
proof -
  have "(of_nat (length data) :: u64)
      = of_nat (sum_list (map (count_list data) (filter (\<lambda>k. k \<in> set data) all_bytes)))"
    by (simp only: sum_count_bytes)
  then show ?thesis by (simp add: map_items_tally comp_def of_nat_sum_list)
qed

lemma values_buildFrequencyTable:
  "map sym_value (symbols (buildFrequencyTable data enc)) = filter (\<lambda>k. k \<in> set data) all_bytes"
  by (simp add: symbols_buildFrequencyTable map_items_tally comp_def)

lemma sorted_buildFrequencyTable:
  "sorted_wrt (<) (map sym_value (symbols (buildFrequencyTable data enc)))"
  unfolding values_buildFrequencyTable using sorted_all_bytes by (rule sorted_wrt_filter)

lemma model_inv_buildFrequencyTable:
  assumes "length data < 2 ^ 64"
  shows "model_inv (buildFrequencyTable data enc)"
proof (rule model_inv_cum_ranges)
  show "sum_list (map (\<lambda>p. unat (snd p)) (map_items (foldl freq_incr Map.empty data))) < 2 ^ 64"
    using assms by (simp add: sum_items_tally)
  show "symbols (buildFrequencyTable data enc) = cum_ranges 0 (map_items (foldl freq_incr Map.empty data))"
    by (rule symbols_buildFrequencyTable)
  show "total_count (buildFrequencyTable data enc) = sum_list (map snd (map_items (foldl freq_incr Map.empty data)))"
    by (simp add: total_buildFrequencyTable word_sum_items_tally)
qed

lemma model_inv_buildSymbolsFromCounts:
  assumes "sum_list (map (\<lambda>p. unat (snd p)) counts) < 2 ^ 64"
  shows "model_inv (buildSymbolsFromCounts counts enc)"
  using assms
  by (rule model_inv_cum_ranges) (simp_all add: symbols_buildSymbolsFromCounts total_buildSymbolsFromCounts)

text \<open>
  Claim C3, amended. A model built from raw data of fewer than \<open>2^64\<close> bytes (the range of
  \<^verbatim>\<open>size_t\<close>), and a model rebuilt from a count table whose counts sum to less than \<open>2^64\<close>,
  satisfy \<open>model_inv\<close>: the counts sum to \<open>total_count\<close>, every entry has
  \<open>high = low + count\<close>, the entries cover \<open>[0, total_count)\<close> contiguously, and every
  cumulative value below \<open>total_count\<close> lies in exactly one entry. Built from raw data,
  \<open>total_count\<close> is the length of the data and the entries are in strictly ascending order
  of byte value.
\<close>

theorem model_invariant_without_overflow:
  "(length data < 2 ^ 64 \<longrightarrow>
      model_inv (buildFrequencyTable data enc)
      \<and> unat (total_count (buildFrequencyTable data enc)) = length data
      \<and> sorted_wrt (<) (map sym_value (symbols (buildFrequencyTable data enc))))
   \<and> (sum_list (map (\<lambda>p. unat (snd p)) counts) < 2 ^ 64 \<longrightarrow>
      model_inv (buildSymbolsFromCounts counts enc))"
proof -
  have "unat (total_count (buildFrequencyTable data enc)) = length data" if "length data < 2 ^ 64"
    using that by (simp add: total_buildFrequencyTable unat_of_nat)
  then show ?thesis
    using model_inv_buildFrequencyTable [of data enc] sorted_buildFrequencyTable [of data enc]
      model_inv_buildSymbolsFromCounts [of counts enc]
    by blast
qed

theorem model_invariant_without_overflow_witness:
  "length [0x61, 0x62, 0x61 :: byte] < 2 ^ 64
   \<and> model_inv (buildFrequencyTable [0x61, 0x62, 0x61] \<lparr>symbols = [], total_count = 0\<rparr>)
   \<and> unat (total_count (buildFrequencyTable [0x61, 0x62, 0x61] \<lparr>symbols = [], total_count = 0\<rparr>)) = 3
   \<and> sum_list (map (\<lambda>p. unat (snd p)) [(0x61 :: byte, 2 :: u64), (0x62, 1)]) < 2 ^ 64
   \<and> model_inv (buildSymbolsFromCounts [(0x61, 2), (0x62, 1)] \<lparr>symbols = [], total_count = 0\<rparr>)"
  using model_invariant_without_overflow
    [of "[0x61, 0x62, 0x61]" "\<lparr>symbols = [], total_count = 0\<rparr>" "[(0x61, 2), (0x62, 1)]"]
  by simp

text \<open>
  The claim as stated fails for a persisted table whose counts wrap around \<open>2^64\<close>: the
  table \<open>[(0, 2^64 - 1), (1, 2)]\<close> gives \<open>total_count = 1\<close> while the counts sum to \<open>2^64 + 1\<close>,
  and the second entry has \<open>high < low\<close>.
\<close>

theorem model_invariant_counterexample:
  "total_count (buildSymbolsFromCounts [(0, 0xFFFFFFFFFFFFFFFF), (1, 2)]
       \<lparr>symbols = [], total_count = 0\<rparr>) = 1
   \<and> sum_list (map (\<lambda>s. unat (sym_count s))
        (symbols (buildSymbolsFromCounts [(0, 0xFFFFFFFFFFFFFFFF), (1, 2)]
           \<lparr>symbols = [], total_count = 0\<rparr>))) = 18446744073709551617
   \<and> sym_high (symbols (buildSymbolsFromCounts [(0, 0xFFFFFFFFFFFFFFFF), (1, 2)]
        \<lparr>symbols = [], total_count = 0\<rparr>) ! 1)
     < sym_low (symbols (buildSymbolsFromCounts [(0, 0xFFFFFFFFFFFFFFFF), (1, 2)]
        \<lparr>symbols = [], total_count = 0\<rparr>) ! 1)
   \<and> \<not> model_inv (buildSymbolsFromCounts [(0, 0xFFFFFFFFFFFFFFFF), (1, 2)]
        \<lparr>symbols = [], total_count = 0\<rparr>)"
  by (simp add: model_inv_def symbols_buildSymbolsFromCounts total_buildSymbolsFromCounts)

lemma set_values_buildFrequencyTable:
  "set (map sym_value (symbols (buildFrequencyTable data enc))) = set data"
  unfolding values_buildFrequencyTable using set_all_bytes by auto

text \<open>
  Claim C8, amended. \<^verbatim>\<open>buildFrequencyTable\<close> has no failure path: for every input, the empty
  one too, it returns a model, whose \<open>total_count\<close> is the number of input bytes, whose
  entries carry exactly the byte values of the input, and whose table is empty exactly
  when the input is empty.
\<close>

theorem buildFrequencyTable_total:
  "total_count (buildFrequencyTable data enc) = of_nat (length data)
   \<and> set (map sym_value (symbols (buildFrequencyTable data enc))) = set data
   \<and> (symbols (buildFrequencyTable data enc) = [] \<longleftrightarrow> data = [])"
proof -
  have "symbols (buildFrequencyTable data enc) = [] \<longleftrightarrow> data = []"
    using set_values_buildFrequencyTable [of data enc] by (metis list.map_disc_iff set_empty)
  then show ?thesis
    using set_values_buildFrequencyTable [of data enc] by (simp add: total_buildFrequencyTable)
qed

theorem buildFrequencyTable_total_witness:
  "total_count (buildFrequencyTable [0x61, 0x61] \<lparr>symbols = [], total_count = 7\<rparr>) = 2
   \<and> symbols (buildFrequencyTable [0x61, 0x61] \<lparr>symbols = [], total_count = 7\<rparr>) \<noteq> []"
  using buildFrequencyTable_total [of "[0x61, 0x61]" "\<lparr>symbols = [], total_count = 7\<rparr>"]
  by simp

text \<open>The claim as stated fails on the empty input: the model is built, and \<^verbatim>\<open>compress\<close>
  writes a 17-byte file.\<close>

theorem buildFrequencyTable_empty_counterexample:
  "buildFrequencyTable [] \<lparr>symbols = [], total_count = 0\<rparr> = \<lparr>symbols = [], total_count = 0\<rparr>
   \<and> compress \<lparr>symbols = [], total_count = 0\<rparr> (Some []) True
       = Inr ([0x41, 0x52, 0x49, 0x54, 0, 0, 0, 0, 0, 0, 0, 0, 0, 0, 0, 0, 0x40],
              \<lparr>stat_original_size = 0, stat_compressed_size = 17,
               stat_space_saved = 0xFFFFFFFFFFFFFFEF\<rparr>,
              \<lparr>symbols = [], total_count = 0\<rparr>)"
  by code_simp

section \<open>Interval narrowing in natural numbers\<close>

lemma unat_up: "unat (ucast (w :: u32) :: u64) = unat w"
proof -
  have "unat w < 2 ^ LENGTH(32)" by (rule unsigned_less)
  then have "unat w < 2 ^ 64" by simp
  then show ?thesis by (simp add: unsigned_ucast_eq take_bit_nat_eq_self)
qed

lemma unat_down: "unat (w :: u64) < 2 ^ 32 \<Longrightarrow> unat (ucast w :: u32) = unat w"
  by (simp add: unsigned_ucast_eq take_bit_nat_eq_self)

lemma unat_lt_32: "unat (w :: u32) < 4294967296"
  using unsigned_less [of w, where 'a = nat] by simp

lemma unat_lt_64: "unat (w :: u64) < 18446744073709551616"
  using unsigned_less [of w, where 'a = nat] by simp

text \<open>\<open>rng low high\<close> is the value of the 64-bit variable \<open>range\<close>.\<close>

definition rng :: "u32 \<Rightarrow> u32 \<Rightarrow> nat" where
  "rng low high = unat (high - low) + 1"

lemma rng_le: "low \<le> high \<Longrightarrow> rng low high = unat high - unat low + 1"
  by (simp add: rng_def unat_sub)

lemma rng_bounds: "0 < rng low high" "rng low high \<le> 4294967296"
  using unat_lt_32 [of "high - low"] by (simp_all add: rng_def)

lemma unat_range: "unat ((ucast (high - low) :: u64) + 1) = rng low high"
proof -
  have "unat (ucast (high - low) :: u64) + unat (1 :: u64) < 2 ^ LENGTH(64)"
    using unat_lt_32 [of "high - low"] by (simp add: unat_up)
  then have "unat ((ucast (high - low) :: u64) + 1) = unat (ucast (high - low) :: u64) + unat (1 :: u64)"
    by (simp only: unat_add_lem)
  then show ?thesis by (simp add: unat_up rng_def)
qed

text \<open>The 64-bit quotient \<open>(range * c) / total_count\<close>.\<close>

lemma unat_scaled:
  assumes t: "unat t < 2 ^ 32" and c: "unat c \<le> unat t"
  shows "unat (((ucast (high - low) :: u64) + 1) * c div t) = rng low high * unat c div unat t"
proof -
  have "rng low high * unat c \<le> 4294967296 * unat c"
    using rng_bounds(2) [of low high] by (rule mult_le_mono1)
  also have "\<dots> < 4294967296 * 4294967296" using t c by simp
  finally have "unat ((ucast (high - low) :: u64) + 1) * unat c < 2 ^ LENGTH(64)"
    by (simp add: unat_range)
  then have "unat (((ucast (high - low) :: u64) + 1) * c) = unat ((ucast (high - low) :: u64) + 1) * unat c"
    by (simp only: unat_mult_lem)
  then show ?thesis by (simp add: unat_div unat_range)
qed

lemma scaled_le:
  fixes r c t :: nat
  assumes "c \<le> t" "0 < t"
  shows "r * c div t \<le> r"
proof -
  have "r * c div t \<le> r * t div t" using assms by (intro div_le_mono mult_le_mono2)
  then show ?thesis using assms by simp
qed

lemma scaled_less:
  fixes r c t :: nat
  assumes "c < t"  "0 < r"
  shows "r * c div t < r"
proof -
  have "r * c < r * t" using assms by simp
  then show ?thesis using assms by (simp add: div_less_iff_less_mult)
qed

lemma scaled_step:
  fixes r a b t :: nat
  assumes "a < b" "t \<le> r" "0 < t"
  shows "r * a div t < r * b div t"
proof -
  have "r * a + t \<le> r * b"
  proof -
    have "r * Suc a \<le> r * b" using assms(1) by (intro mult_le_mono2) simp
    then show ?thesis using assms(2) by simp
  qed
  then have "(r * a + t) div t \<le> r * b div t" by (rule div_le_mono)
  moreover have "(r * a + t) div t = r * a div t + 1" using assms(3) by (simp add: div_add_self2)
  ultimately show ?thesis by linarith
qed

text \<open>The narrowed bounds as natural numbers, for an entry with \<open>low < high \<le> total_count\<close>
  and a range that is at least \<open>total_count\<close>.\<close>

lemma narrow_unat:
  assumes lh: "low \<le> high"
    and t: "unat t < 2 ^ 32"
    and hi: "unat (sym_high it) \<le> unat t"
    and lo: "unat (sym_low it) < unat (sym_high it)"
    and r: "unat t \<le> rng low high"
  shows "unat (fst (encode_narrow t it low high))
           = unat low + rng low high * unat (sym_low it) div unat t"
    and "unat (snd (encode_narrow t it low high)) + 1
           = unat low + rng low high * unat (sym_high it) div unat t"
    and "fst (encode_narrow t it low high) \<le> snd (encode_narrow t it low high)"
    and "low \<le> fst (encode_narrow t it low high)"
    and "snd (encode_narrow t it low high) \<le> high"
proof -
  let ?r = "rng low high"
  let ?L = "?r * unat (sym_low it) div unat t"
  let ?H = "?r * unat (sym_high it) div unat t"
  have tpos: "0 < unat t" using hi lo by simp
  have rr: "unat low + ?r = unat high + 1" using lh by (simp add: rng_le word_le_nat_alt)
  have LH: "?L < ?H" using lo r tpos by (rule scaled_step)
  have Hr: "?H \<le> ?r" using hi tpos by (rule scaled_le)
  have uh: "unat high < 4294967296" by (rule unat_lt_32)
  have sl: "unat (((ucast (high - low) :: u64) + 1) * sym_low it div t) = ?L"
    using t lo hi by (intro unat_scaled) simp_all
  have sh: "unat (((ucast (high - low) :: u64) + 1) * sym_high it div t) = ?H"
    using t hi by (rule unat_scaled)
  have "unat (ucast low :: u64) + unat (((ucast (high - low) :: u64) + 1) * sym_low it div t) < 2 ^ LENGTH(64)"
    using LH Hr rr uh by (simp add: unat_up sl)
  then have "unat ((ucast low :: u64) + ((ucast (high - low) :: u64) + 1) * sym_low it div t)
      = unat (ucast low :: u64) + unat (((ucast (high - low) :: u64) + 1) * sym_low it div t)"
    by (simp only: unat_add_lem)
  then have al: "unat ((ucast low :: u64) + ((ucast (high - low) :: u64) + 1) * sym_low it div t) = unat low + ?L"
    by (simp only: unat_up sl)
  have "unat (ucast low :: u64) + unat (((ucast (high - low) :: u64) + 1) * sym_high it div t) < 2 ^ LENGTH(64)"
    using Hr rr uh by (simp add: unat_up sh)
  then have "unat ((ucast low :: u64) + ((ucast (high - low) :: u64) + 1) * sym_high it div t)
      = unat (ucast low :: u64) + unat (((ucast (high - low) :: u64) + 1) * sym_high it div t)"
    by (simp only: unat_add_lem)
  then have ah: "unat ((ucast low :: u64) + ((ucast (high - low) :: u64) + 1) * sym_high it div t) = unat low + ?H"
    by (simp only: unat_up sh)
  have nz: "(ucast low :: u64) + ((ucast (high - low) :: u64) + 1) * sym_high it div t \<noteq> 0"
    using ah LH by (metis add_is_0 not_less_zero unsigned_0)
  have ah1: "unat ((ucast low :: u64) + ((ucast (high - low) :: u64) + 1) * sym_high it div t - 1) = unat low + ?H - 1"
    using unat_minus_one [OF nz] ah by simp
  have l': "unat (fst (encode_narrow t it low high)) = unat low + ?L"
    using LH Hr rr uh by (simp add: encode_narrow_def Let_def unat_down al)
  have h': "unat (snd (encode_narrow t it low high)) = unat low + ?H - 1"
    using LH Hr rr uh by (simp add: encode_narrow_def Let_def unat_down ah1)
  show "unat (fst (encode_narrow t it low high)) = unat low + ?L" by (rule l')
  show "unat (snd (encode_narrow t it low high)) + 1 = unat low + ?H" using h' LH by simp
  show "fst (encode_narrow t it low high) \<le> snd (encode_narrow t it low high)"
    using l' h' LH by (simp add: word_le_nat_alt)
  show "low \<le> fst (encode_narrow t it low high)" using l' by (simp add: word_le_nat_alt)
  show "snd (encode_narrow t it low high) \<le> high"
    using h' Hr rr by (simp add: word_le_nat_alt)
qed

text \<open>The decoder's cumulative value as a natural number.\<close>

lemma unat_decode_cum:
  assumes t: "unat t < 2 ^ 32" and tpos: "0 < unat t"
  shows "unat (decode_cum t low high v) = ((unat (v - low) + 1) * unat t - 1) div rng low high"
proof -
  have "unat (ucast (v - low) :: u64) + unat (1 :: u64) < 2 ^ LENGTH(64)"
    using unat_lt_32 [of "v - low"] by (simp add: unat_up)
  then have "unat ((ucast (v - low) :: u64) + 1) = unat (ucast (v - low) :: u64) + unat (1 :: u64)"
    by (simp only: unat_add_lem)
  then have a: "unat ((ucast (v - low) :: u64) + 1) = unat (v - low) + 1"
    by (simp add: unat_up)
  have "(unat (v - low) + 1) * unat t \<le> 4294967296 * unat t"
    using unat_lt_32 [of "v - low"] by (intro mult_le_mono1) simp
  also have "\<dots> < 4294967296 * 4294967296" using t by simp
  finally have "unat ((ucast (v - low) :: u64) + 1) * unat t < 2 ^ LENGTH(64)"
    by (simp add: a)
  then have "unat (((ucast (v - low) :: u64) + 1) * t) = unat ((ucast (v - low) :: u64) + 1) * unat t"
    by (simp only: unat_mult_lem)
  then have m: "unat (((ucast (v - low) :: u64) + 1) * t) = (unat (v - low) + 1) * unat t"
    by (simp only: a)
  have nz: "((ucast (v - low) :: u64) + 1) * t \<noteq> 0"
    using m tpos by (metis add_is_0 mult_is_0 not_less_zero unsigned_0 zero_neq_one)
  have "unat (((ucast (v - low) :: u64) + 1) * t - 1) = (unat (v - low) + 1) * unat t - 1"
    using unat_minus_one [OF nz] m by simp
  then show ?thesis by (simp add: decode_cum_def Let_def unat_div unat_range)
qed

lemma cum_bounds:
  fixes r t L X x :: nat
  assumes "0 < t" "0 < r" "r * L div t \<le> x" "x + 1 \<le> r * X div t"
  shows "L \<le> ((x + 1) * t - 1) div r" and "((x + 1) * t - 1) div r < X"
proof -
  have "r * L div t < x + 1" using assms(3) by simp
  then have "r * L < (x + 1) * t" using assms(1) by (simp only: div_less_iff_less_mult)
  then have "L * r \<le> (x + 1) * t - 1" by (simp add: mult.commute)
  then show "L \<le> ((x + 1) * t - 1) div r"
    using assms(2) by (simp only: less_eq_div_iff_mult_less_eq)
  have "(x + 1) * t \<le> r * X" using assms(4,1) by (simp only: less_eq_div_iff_mult_less_eq)
  moreover have "(x + 1) * t - 1 < (x + 1) * t" using assms(1) by simp
  ultimately have "(x + 1) * t - 1 < r * X" by (rule less_le_trans [rotated])
  then have "(x + 1) * t - 1 < X * r" by (simp only: mult.commute)
  then show "((x + 1) * t - 1) div r < X" using assms(2) by (simp only: div_less_iff_less_mult)
qed

text \<open>A value inside the narrowed interval of an entry decodes to a cumulative value
  inside the range of that entry.\<close>

lemma decode_cum_in_entry:
  assumes lh: "low \<le> high"
    and t: "unat t < 2 ^ 32"
    and hi: "unat (sym_high it) \<le> unat t"
    and lo: "unat (sym_low it) < unat (sym_high it)"
    and r: "unat t \<le> rng low high"
    and v: "fst (encode_narrow t it low high) \<le> v" "v \<le> snd (encode_narrow t it low high)"
  shows "unat (sym_low it) \<le> unat (decode_cum t low high v)"
    and "unat (decode_cum t low high v) < unat (sym_high it)"
proof -
  note n = narrow_unat [OF lh t hi lo r]
  have tpos: "0 < unat t" using hi lo by simp
  have lv: "low \<le> v" using n(4) v(1) by simp
  then have x: "unat (v - low) = unat v - unat low" by (simp add: unat_sub)
  have lv': "unat low \<le> unat v" using lv by (simp add: word_le_nat_alt)
  have 1: "rng low high * unat (sym_low it) div unat t \<le> unat (v - low)"
    using v(1) n(1) x lv' by (simp add: word_le_nat_alt)
  have 2: "unat (v - low) + 1 \<le> rng low high * unat (sym_high it) div unat t"
    using v(2) n(2) x lv' by (simp add: word_le_nat_alt)
  show "unat (sym_low it) \<le> unat (decode_cum t low high v)"
    unfolding unat_decode_cum [OF t tpos] using tpos rng_bounds(1) 1 2 by (rule cum_bounds(1))
  show "unat (decode_cum t low high v) < unat (sym_high it)"
    unfolding unat_decode_cum [OF t tpos] using tpos rng_bounds(1) 1 2 by (rule cum_bounds(2))
qed

text \<open>
  Claim C5, amended. For every state \<open>(low, high)\<close>, entry and \<open>total_count\<close> the decoder's
  narrowing (lines 181, 190, 191) yields the same pair as the encoder's (lines 110 to 112).
  For \<open>0 < total_count < 2^32\<close> the 64-bit computation of \<open>cum\<close> does not wrap and equals
  \<open>floor(((value - low + 1) * total - 1) / range)\<close>, with \<open>value - low\<close> the 32-bit difference
  and \<open>range = high - low + 1\<close>. For \<open>total_count < 2^32\<close>, a state with \<open>low \<le> high\<close> and an
  entry with \<open>low < high \<le> total_count \<le> range\<close>, this rounding matches the encoder's: every
  \<open>value\<close> inside the encoder's narrowed interval gives a \<open>cum\<close> inside the range of that
  entry.
\<close>

theorem decoder_narrowing_matches_encoder:
  "decode_narrow t it low high = encode_narrow t it low high
   \<and> (0 < unat t \<and> unat t < 2 ^ 32 \<longrightarrow>
        unat (decode_cum t low high v)
          = ((unat (v - low) + 1) * unat t - 1) div (unat (high - low) + 1))
   \<and> (low \<le> high \<and> unat t < 2 ^ 32 \<and> unat (sym_high it) \<le> unat t
        \<and> unat (sym_low it) < unat (sym_high it) \<and> unat t \<le> unat (high - low) + 1
        \<and> fst (encode_narrow t it low high) \<le> v \<and> v \<le> snd (encode_narrow t it low high) \<longrightarrow>
        sym_low it \<le> decode_cum t low high v \<and> decode_cum t low high v < sym_high it)"
proof (intro conjI impI)
  show "decode_narrow t it low high = encode_narrow t it low high"
    by (simp add: decode_narrow_def encode_narrow_def)
next
  assume "0 < unat t \<and> unat t < 2 ^ 32"
  then show "unat (decode_cum t low high v)
      = ((unat (v - low) + 1) * unat t - 1) div (unat (high - low) + 1)"
    using unat_decode_cum [of t low high v] by (simp add: rng_def)
next
  assume a: "low \<le> high \<and> unat t < 2 ^ 32 \<and> unat (sym_high it) \<le> unat t
        \<and> unat (sym_low it) < unat (sym_high it) \<and> unat t \<le> unat (high - low) + 1
        \<and> fst (encode_narrow t it low high) \<le> v \<and> v \<le> snd (encode_narrow t it low high)"
  then have r: "unat t \<le> rng low high" by (simp add: rng_def)
  show "sym_low it \<le> decode_cum t low high v"
    using decode_cum_in_entry(1) [of low high t it v] a r by (simp add: word_le_nat_alt)
  show "decode_cum t low high v < sym_high it"
    using decode_cum_in_entry(2) [of low high t it v] a r by (simp add: word_less_nat_alt)
qed

theorem decoder_narrowing_matches_encoder_witness:
  "decode_narrow 4 \<lparr>sym_value = 0x62, sym_low = 1, sym_high = 3, sym_count = 2\<rparr> 0 0xFFFFFFFF
     = (0x40000000, 0xBFFFFFFF)
   \<and> encode_narrow 4 \<lparr>sym_value = 0x62, sym_low = 1, sym_high = 3, sym_count = 2\<rparr> 0 0xFFFFFFFF
     = (0x40000000, 0xBFFFFFFF)
   \<and> (0x40000000 :: u32) \<le> 0x80000000 \<and> (0x80000000 :: u32) \<le> 0xBFFFFFFF
   \<and> decode_cum 4 0 0xFFFFFFFF 0x80000000 = 2
   \<and> (1 :: u64) \<le> decode_cum 4 0 0xFFFFFFFF 0x80000000
   \<and> decode_cum 4 0 0xFFFFFFFF 0x80000000 < (3 :: u64)
   \<and> unat (decode_cum 4 0 0xFFFFFFFF 0x80000000)
       = ((unat (0x80000000 - 0 :: u32) + 1) * unat (4 :: u64) - 1) div (unat (0xFFFFFFFF - 0 :: u32) + 1)"
proof -
  let ?it = "\<lparr>sym_value = 0x62, sym_low = 1, sym_high = 3, sym_count = 2\<rparr>"
  have e: "encode_narrow 4 ?it 0 0xFFFFFFFF = (0x40000000, 0xBFFFFFFF)" by code_simp
  have c: "decode_cum 4 0 0xFFFFFFFF 0x80000000 = 2" by code_simp
  have h: "0 < unat (4 :: u64) \<and> unat (4 :: u64) < 2 ^ 32" by simp
  show ?thesis
    using decoder_narrowing_matches_encoder [of 4 ?it 0 "0xFFFFFFFF" "0x80000000"] e c h
    by simp
qed

text \<open>
  The claim as stated fails for a \<open>total_count\<close> of \<open>2^32\<close> or more, where the 64-bit product
  wraps. With the total \<open>2^32 + 1\<close>, the initial state and \<open>value = 2^32 - 1\<close> the code computes
  \<open>cum = 0\<close> where the formula gives \<open>2^32\<close>; the value lies in the interval to which the
  encoder narrows for the entry with the range from 1 to \<open>2^32 + 1\<close>, and \<open>cum = 0\<close> is below
  that range.
\<close>

theorem decode_cum_wrap_counterexample:
  "decode_cum 0x100000001 0 0xFFFFFFFF 0xFFFFFFFF = 0
   \<and> ((unat (0xFFFFFFFF - 0 :: u32) + 1) * unat (0x100000001 :: u64) - 1)
         div (unat (0xFFFFFFFF - 0 :: u32) + 1) = 4294967296
   \<and> encode_narrow 0x100000001
         \<lparr>sym_value = 1, sym_low = 1, sym_high = 0x100000001, sym_count = 0x100000000\<rparr>
         0 0xFFFFFFFF = (0, 0xFFFFFFFF)
   \<and> decode_cum 0x100000001 0 0xFFFFFFFF 0xFFFFFFFF
         < sym_low \<lparr>sym_value = 1, sym_low = 1, sym_high = 0x100000001, sym_count = 0x100000000\<rparr>"
proof -
  have c: "decode_cum 0x100000001 0 0xFFFFFFFF 0xFFFFFFFF = 0" by code_simp
  have n: "encode_narrow 0x100000001
         \<lparr>sym_value = 1, sym_low = 1, sym_high = 0x100000001, sym_count = 0x100000000\<rparr>
         0 0xFFFFFFFF = (0, 0xFFFFFFFF)" by code_simp
  have f: "((unat (0xFFFFFFFF - 0 :: u32) + 1) * unat (0x100000001 :: u64) - 1)
         div (unat (0xFFFFFFFF - 0 :: u32) + 1) = 4294967296" by simp
  show ?thesis unfolding c n using f by simp
qed

section \<open>File format lemmas\<close>

text \<open>\<open>be_bytes k v\<close>: the low \<open>k\<close> bytes of \<open>v\<close>, most significant first.\<close>

fun be_bytes :: "nat \<Rightarrow> 'a::len word \<Rightarrow> byte list" where
  "be_bytes 0 v = []"
| "be_bytes (Suc k) v = ucast (drop_bit (8 * k) v) # be_bytes k v"

lemma length_be_bytes [simp]: "length (be_bytes k v) = k"
  by (induction k) simp_all

lemma ucast_and_ff: "(ucast (w AND 0xFF) :: byte) = ucast w" for w :: "'a::len word"
proof -
  have "(0xFF :: 'a word) = mask 8" by (simp add: mask_eq_exp_minus_1)
  then have e: "w AND 0xFF = w AND mask 8" by simp
  show ?thesis unfolding e by (rule bit_eqI) (auto simp add: bit_simps dest: bit_imp_le_length)
qed


lemma be_step:
  "push_bit (8 * k) (push_bit 8 acc OR ucast (ucast (drop_bit (8 * k) v) :: byte)) OR take_bit (8 * k) v
     = push_bit (8 * Suc k) acc OR take_bit (8 * Suc k) v" for acc v :: "'a::len word"
proof (rule bit_eqI)
  fix n
  assume "possible_bit TYPE('a word) n"
  then have n: "n < LENGTH('a)" by simp
  consider "n < 8 * k" | "8 * k \<le> n" "n < 8 * k + 8" | "8 * k + 8 \<le> n" by linarith
  then show "bit (push_bit (8 * k) (push_bit 8 acc OR ucast (ucast (drop_bit (8 * k) v) :: byte)) OR take_bit (8 * k) v) n
     = bit (push_bit (8 * Suc k) acc OR take_bit (8 * Suc k) v) n"
  proof cases
    case 1
    then show ?thesis using n by (simp add: bit_simps)
  next
    case 2
    then have "n - 8 * k < 8" "8 * k + (n - 8 * k) = n" by simp_all
    then show ?thesis using n 2 by (auto simp add: bit_simps)
  next
    case 3
    then have "\<not> n - 8 * k < 8" "n - 8 * k - 8 = n - (8 + 8 * k)" by simp_all
    then show ?thesis using n 3 by (simp add: bit_simps)
  qed
qed


lemma read_be_bytes:
  "read_be k acc (be_bytes k v @ ins) = Inr (push_bit (8 * k) acc OR take_bit (8 * k) v, ins)"
proof (induction k arbitrary: acc)
  case 0
  then show ?case by simp
next
  case (Suc k)
  show ?case unfolding be_bytes.simps append_Cons read_be.simps Suc.IH be_step ..
qed

lemma writeUint64_be: "writeUint64 v = be_bytes 8 v"
proof -
  have e: "[0..<8] = [0, 1, 2, 3, 4, 5, 6, 7]" by (simp add: upt_rec)
  show ?thesis by (simp add: writeUint64_def e ucast_and_ff numeral_eq_Suc)
qed

lemma writeUint32_be: "writeUint32 v = be_bytes 4 v"
proof -
  have e: "[0..<4] = [0, 1, 2, 3]" by (simp add: upt_rec)
  show ?thesis by (simp add: writeUint32_def e ucast_and_ff numeral_eq_Suc)
qed

lemma length_writeUint64 [simp]: "length (writeUint64 v) = 8"
  by (simp add: writeUint64_def)

lemma length_writeUint32 [simp]: "length (writeUint32 v) = 4"
  by (simp add: writeUint32_def)

lemma readUint64_writeUint64: "readUint64 (writeUint64 v @ ins) = Inr (v, ins)"
  by (simp add: readUint64_def writeUint64_be read_be_bytes take_bit_word_eq_self)

lemma readUint32_writeUint32: "readUint32 (writeUint32 v @ ins) = Inr (v, ins)"
  by (simp add: readUint32_def writeUint32_be read_be_bytes take_bit_word_eq_self)

lemma read_be_short: "length ins < k \<Longrightarrow> read_be k acc ins = Inl UnexpectedEOF"
proof (induction k acc ins rule: read_be.induct)
  case (1 v ins)
  then show ?case by simp
next
  case (2 n v)
  then show ?case by simp
next
  case (3 n v c ins)
  then show ?case by simp
qed

lemma read_be_long:
  "k \<le> length ins \<Longrightarrow> \<exists>v. read_be k acc ins = Inr (v, drop k ins)"
proof (induction k acc ins rule: read_be.induct)
  case (1 v ins)
  then show ?case by simp
next
  case (2 n v)
  then show ?case by simp
next
  case (3 n v c ins)
  then show ?case by simp
qed

text \<open>The symbol table as it is written to the file.\<close>

definition table_bytes :: "(byte \<times> u64) list \<Rightarrow> byte list" where
  "table_bytes counts = concat (map (\<lambda>p. fst p # writeUint64 (snd p)) counts)"

lemma length_table_bytes [simp]: "length (table_bytes counts) = 9 * length counts"
  by (induction counts) (simp_all add: table_bytes_def)

lemma table_bytes_symbols:
  "concat (map (\<lambda>s. sym_value s # writeUint64 (sym_count s)) (cum_ranges c xs)) = table_bytes xs"
  by (induction c xs rule: cum_ranges.induct) (simp_all add: table_bytes_def)

lemma read_counts_table:
  "read_counts (length counts) (table_bytes counts @ rest) acc = Inr (acc @ counts, rest)"
proof (induction counts arbitrary: acc)
  case Nil
  then show ?case by (simp add: table_bytes_def)
next
  case (Cons p counts)
  have t: "table_bytes (p # counts) @ rest = fst p # (writeUint64 (snd p) @ (table_bytes counts @ rest))"
    by (simp add: table_bytes_def)
  show ?case unfolding t using Cons.IH [of "acc @ [p]"]
    by (simp add: readUint64_writeUint64)
qed

lemma read_counts_short:
  "length ins < 9 * n \<Longrightarrow> read_counts n ins acc = Inl UnexpectedEOF"
proof (induction n arbitrary: ins acc)
  case 0
  then show ?case by simp
next
  case (Suc n)
  show ?case
  proof (cases ins)
    case Nil
    then show ?thesis by simp
  next
    case (Cons v ins')
    show ?thesis
    proof (cases "length ins' < 8")
      case True
      then show ?thesis using Cons by (simp add: readUint64_def read_be_short)
    next
      case False
      then obtain c where c: "readUint64 ins' = Inr (c, drop 8 ins')"
        using read_be_long [of 8 ins' 0] by (auto simp add: readUint64_def)
      have "length (drop 8 ins') < 9 * n" using Suc.prems Cons False by simp
      then show ?thesis using Cons c Suc.IH by simp
    qed
  qed
qed


section \<open>Results of \<^verbatim>\<open>compress\<close> and \<^verbatim>\<open>decompress\<close>\<close>

lemma encode_loop_total:
  "total_count enc \<noteq> 0 \<Longrightarrow> \<exists>st'. encode_loop enc data st = Inr st'"
proof (induction data arbitrary: st)
  case Nil
  show ?case unfolding encode_loop.simps by (rule exI) (rule refl)
next
  case (Cons b data)
  obtain low high btf w where st: "st = (low, high, btf, w)" by (cases st) auto
  show ?case unfolding st using Cons by (simp split: option.split prod.split)
qed

lemma encodeData_total:
  assumes "length data < 2 ^ 64"
  shows "\<exists>w. encodeData (buildFrequencyTable data enc) data writer = Inr w"
proof (cases data)
  case Nil
  then show ?thesis by (simp add: encodeData_def)
next
  case (Cons b bs)
  then have "0 < length data" by simp
  moreover have "unat (of_nat (length data) :: u64) = length data"
    using assms by (simp add: unat_of_nat)
  ultimately have "(of_nat (length data) :: u64) \<noteq> 0" by auto
  then have "total_count (buildFrequencyTable data enc) \<noteq> 0"
    by (simp add: total_buildFrequencyTable)
  from encode_loop_total [OF this, of data "(0, MAX_RANGE, 0, writer)"]
  show ?thesis by (auto simp add: encodeData_def)
qed


lemma enc_eq: "e\<lparr>symbols := a, total_count := b\<rparr> = \<lparr>symbols = a, total_count = b\<rparr>"
  for e :: ArithmeticEncoder
  by simp

lemma buildFrequencyTable_state:
  "buildFrequencyTable data e1 = buildFrequencyTable data e2"
  by (simp add: buildFrequencyTable_def Let_def split: prod.split)

lemma buildSymbolsFromCounts_state:
  "buildSymbolsFromCounts counts e1 = buildSymbolsFromCounts counts e2"
  by (simp add: buildSymbolsFromCounts_def Let_def split: prod.split)

text \<open>
  Claim C7. The result of \<^verbatim>\<open>compress\<close> (the bytes of the output file, the statistics and
  the object afterwards) is a function of the input alone: it does not depend on the
  table and total that the object holds from an earlier call. So a second \<^verbatim>\<open>compress\<close> of
  the same input on the same object writes the same file, byte for byte.
\<close>

theorem compress_deterministic:
  "compress e1 input_file can_create = compress e2 input_file can_create
   \<and> (\<forall>outfile st e'. compress e1 input_file can_create = Inr (outfile, st, e') \<longrightarrow>
        compress e' input_file can_create = Inr (outfile, st, e'))"
proof -
  have 1: "compress e input_file can_create = compress e' input_file can_create" for e e'
    unfolding compress_def buildFrequencyTable_state [of _ e e'] ..
  show ?thesis using 1 [of e1 e2] 1 [of e1] by metis
qed

theorem compress_deterministic_witness:
  "compress \<lparr>symbols = [], total_count = 0\<rparr> (Some [0x61]) True
     = Inr ([0x41, 0x52, 0x49, 0x54, 0, 0, 0, 0, 0, 0, 0, 1, 0, 0, 0, 1, 0x61, 0, 0, 0, 0, 0, 0, 0, 1, 0x40],
            \<lparr>stat_original_size = 1, stat_compressed_size = 26, stat_space_saved = 0xFFFFFFFFFFFFFFE7\<rparr>,
            \<lparr>symbols = [\<lparr>sym_value = 0x61, sym_low = 0, sym_high = 1, sym_count = 1\<rparr>], total_count = 1\<rparr>)
   \<and> compress \<lparr>symbols = [\<lparr>sym_value = 0x61, sym_low = 0, sym_high = 1, sym_count = 1\<rparr>], total_count = 1\<rparr>
        (Some [0x61]) True
     = Inr ([0x41, 0x52, 0x49, 0x54, 0, 0, 0, 0, 0, 0, 0, 1, 0, 0, 0, 1, 0x61, 0, 0, 0, 0, 0, 0, 0, 1, 0x40],
            \<lparr>stat_original_size = 1, stat_compressed_size = 26, stat_space_saved = 0xFFFFFFFFFFFFFFE7\<rparr>,
            \<lparr>symbols = [\<lparr>sym_value = 0x61, sym_low = 0, sym_high = 1, sym_count = 1\<rparr>], total_count = 1\<rparr>)"
proof -
  have c: "compress \<lparr>symbols = [], total_count = 0\<rparr> (Some [0x61]) True
     = Inr ([0x41, 0x52, 0x49, 0x54, 0, 0, 0, 0, 0, 0, 0, 1, 0, 0, 0, 1, 0x61, 0, 0, 0, 0, 0, 0, 0, 1, 0x40],
            \<lparr>stat_original_size = 1, stat_compressed_size = 26, stat_space_saved = 0xFFFFFFFFFFFFFFE7\<rparr>,
            \<lparr>symbols = [\<lparr>sym_value = 0x61, sym_low = 0, sym_high = 1, sym_count = 1\<rparr>], total_count = 1\<rparr>)"
    by code_simp
  show ?thesis
    using compress_deterministic [of "\<lparr>symbols = [], total_count = 0\<rparr>" "Some [0x61]" True
        "\<lparr>symbols = [], total_count = 0\<rparr>"] c
    by simp
qed

lemma sint_of_nat_small:
  assumes "n < 2 ^ 63"
  shows "sint (of_nat n :: u64) = int n"
proof -
  have "int n < 2 ^ 63" using assms by (metis of_nat_less_iff of_nat_numeral of_nat_power)
  then have "signed_take_bit 63 (int n) = int n"
    by (intro signed_take_bit_int_eq_self) simp_all
  then show ?thesis by (simp add: signed_of_nat)
qed

lemma compress_result:
  assumes "encodeData (buildFrequencyTable data enc) data new_writer = Inr w"
  shows "compress enc (Some data) True =
     Inr (magic @ writeUint64 (of_nat (length data))
            @ writeUint32 (of_nat (length (symbols (buildFrequencyTable data enc))))
            @ table_bytes (map_items (foldl freq_incr Map.empty data)) @ w_bytes w,
          \<lparr>stat_original_size = of_nat (length data),
           stat_compressed_size = of_nat (length (w_bytes w)) + 4 + 8 + 4
              + of_nat (length (symbols (buildFrequencyTable data enc))) * (1 + 8),
           stat_space_saved = of_nat (length data)
              - (of_nat (length (w_bytes w)) + 4 + 8 + 4
                 + of_nat (length (symbols (buildFrequencyTable data enc))) * (1 + 8))\<rparr>,
          buildFrequencyTable data enc)"
  using assms
  by (simp add: compress_def Let_def table_bytes_symbols symbols_buildFrequencyTable)

text \<open>
  Claim C4. For every input of fewer than \<open>2^63\<close> bytes (the range of \<^verbatim>\<open>long long\<close>),
  \<^verbatim>\<open>compress\<close> succeeds; the file starts with the magic; the 8 bytes after it read back,
  big-endian, as the length of the input; \<^verbatim>\<open>original_size\<close> in the statistics is that
  length; \<^verbatim>\<open>compressed_size\<close> is the length of the file produced (as a 64-bit word in any
  case, as a \<^verbatim>\<open>long long\<close> when the file is shorter than \<open>2^63\<close> bytes); and that length is
  4 + 8 + 4, plus 9 bytes per table entry, plus the bytes of the bit writer.
\<close>

theorem header_fidelity:
  assumes "length data < 2 ^ 63"
  shows "case compress enc (Some data) True of
           Inl e \<Rightarrow> False
         | Inr (outfile, st, enc') \<Rightarrow>
             take 4 outfile = magic
             \<and> (case readUint64 (drop 4 outfile) of
                  Inl e \<Rightarrow> False
                | Inr (n, rest) \<Rightarrow> unat n = length data)
             \<and> sint (stat_original_size st) = int (length data)
             \<and> stat_compressed_size st = of_nat (length outfile)
             \<and> (length outfile < 2 ^ 63 \<longrightarrow> sint (stat_compressed_size st) = int (length outfile))
             \<and> (case encodeData enc' data new_writer of
                  Inl e \<Rightarrow> False
                | Inr w \<Rightarrow>
                    length outfile = 4 + 8 + 4 + 9 * length (symbols enc') + length (w_bytes w))"
proof -
  have l64: "length data < 2 ^ 64" using assms by simp
  obtain w where w: "encodeData (buildFrequencyTable data enc) data new_writer = Inr w"
    using encodeData_total [OF l64] by blast
  let ?e = "buildFrequencyTable data enc"
  let ?f = "magic @ writeUint64 (of_nat (length data))
            @ writeUint32 (of_nat (length (symbols ?e)))
            @ table_bytes (map_items (foldl freq_incr Map.empty data)) @ w_bytes w"
  have lm: "length magic = 4" by (simp add: magic_def)
  have len: "length ?f = 4 + 8 + 4 + 9 * length (symbols ?e) + length (w_bytes w)"
    by (simp add: lm symbols_buildFrequencyTable)
  have cs: "of_nat (length (w_bytes w)) + 4 + 8 + 4 + of_nat (length (symbols ?e)) * (1 + 8)
      = (of_nat (length ?f) :: u64)"
    unfolding len by simp
  have rd: "readUint64 (drop 4 ?f) = Inr (of_nat (length data),
      writeUint32 (of_nat (length (symbols ?e)))
            @ table_bytes (map_items (foldl freq_incr Map.empty data)) @ w_bytes w)"
    using lm by (simp add: readUint64_writeUint64)
  have un: "unat (of_nat (length data) :: u64) = length data"
    using l64 by (simp add: unat_of_nat)
  have tk: "take 4 ?f = magic" using lm by simp
  show ?thesis
    unfolding compress_result [OF w] sum.case prod.case Statistics.simps cs
    using tk rd un w len sint_of_nat_small [OF assms] sint_of_nat_small [of "length ?f"]
    by simp
qed

theorem header_fidelity_witness:
  "length [0x61 :: byte] < 2 ^ 63
   \<and> compress \<lparr>symbols = [], total_count = 0\<rparr> (Some [0x61]) True
     = Inr ([0x41, 0x52, 0x49, 0x54, 0, 0, 0, 0, 0, 0, 0, 1, 0, 0, 0, 1, 0x61, 0, 0, 0, 0, 0, 0, 0, 1, 0x40],
            \<lparr>stat_original_size = 1, stat_compressed_size = 26, stat_space_saved = 0xFFFFFFFFFFFFFFE7\<rparr>,
            \<lparr>symbols = [\<lparr>sym_value = 0x61, sym_low = 0, sym_high = 1, sym_count = 1\<rparr>], total_count = 1\<rparr>)
   \<and> readUint64 (drop 4 [0x41, 0x52, 0x49, 0x54, 0, 0, 0, 0, 0, 0, 0, 1, 0, 0, 0, 1, 0x61, 0, 0, 0, 0, 0, 0, 0, 1, 0x40])
     = Inr (1, [0, 0, 0, 1, 0x61, 0, 0, 0, 0, 0, 0, 0, 1, 0x40])
   \<and> sint (26 :: u64) = int (length [0x41, 0x52, 0x49, 0x54, 0, 0, 0, 0, 0, 0, 0, 1, 0, 0, 0, 1, 0x61, 0, 0, 0, 0, 0, 0, 0, 1, 0x40 :: byte])"
proof -
  have c: "compress \<lparr>symbols = [], total_count = 0\<rparr> (Some [0x61]) True
     = Inr ([0x41, 0x52, 0x49, 0x54, 0, 0, 0, 0, 0, 0, 0, 1, 0, 0, 0, 1, 0x61, 0, 0, 0, 0, 0, 0, 0, 1, 0x40],
            \<lparr>stat_original_size = 1, stat_compressed_size = 26, stat_space_saved = 0xFFFFFFFFFFFFFFE7\<rparr>,
            \<lparr>symbols = [\<lparr>sym_value = 0x61, sym_low = 0, sym_high = 1, sym_count = 1\<rparr>], total_count = 1\<rparr>)"
    by code_simp
  have r: "readUint64 (drop 4 [0x41, 0x52, 0x49, 0x54, 0, 0, 0, 0, 0, 0, 0, 1, 0, 0, 0, 1, 0x61, 0, 0, 0, 0, 0, 0, 0, 1, 0x40])
     = Inr (1, [0, 0, 0, 1, 0x61, 0, 0, 0, 0, 0, 0, 0, 1, 0x40])"
    by code_simp
  have l: "length [0x61 :: byte] < 2 ^ 63" by simp
  show ?thesis
    using header_fidelity [OF l, of "\<lparr>symbols = [], total_count = 0\<rparr>"] c r l
    by simp
qed

lemma decode_loop_length:
  assumes "total_count enc \<noteq> 0 \<or> symbols enc = []"
  shows "\<exists>out'. decode_loop enc n st out = Inr out' \<and> length out' = length out + n"
proof (induction n arbitrary: st out)
  case 0
  show ?case by simp
next
  case (Suc n)
  obtain low high v r where st: "st = (low, high, v, r)" by (cases st) auto
  let ?sv = "decodeSymbol enc (decode_cum (total_count enc) low high v)"
  show ?case
  proof (cases "find (\<lambda>s. sym_value s = ?sv) (symbols enc)")
    case None
    then show ?thesis unfolding st using Suc [of "(low, high, v, r)" "out @ [?sv]"]
      by (simp add: Let_def)
  next
    case (Some it)
    then have "symbols enc \<noteq> []" by auto
    then have t: "total_count enc \<noteq> 0" using assms by simp
    obtain l' h' where n: "decode_narrow (total_count enc) it low high = (l', h')"
      by (cases "decode_narrow (total_count enc) it low high") auto
    show ?thesis unfolding st using Some t n Suc [of "decode_renorm l' h' v r" "out @ [?sv]"]
      by (simp add: Let_def)
  qed
qed

lemma magic_length [simp]: "length magic = 4"
  by (simp add: magic_def)

lemma decompress_wellformed:
  assumes "length counts = unat n"
  shows "decompress enc (Some (magic @ writeUint64 sz @ writeUint32 n @ table_bytes counts @ bitstream)) True
    = (if max_size < sz then Inl LengthError
       else case decodeData (buildSymbolsFromCounts counts enc) (new_reader bitstream) [] sz of
              Inl e \<Rightarrow> Inl e
            | Inr decoded \<Rightarrow> Inr (decoded, buildSymbolsFromCounts counts enc))"
  using read_counts_table [of counts bitstream "[]"] assms
  by (simp add: decompress_def readUint64_writeUint64 readUint32_writeUint32 Let_def split: sum.split)

text \<open>With \<^verbatim>\<open>total_count = 0\<close> the first \<open>cum\<close> is \<open>(2^64 - 1) div 2^32\<close>, whatever the bitstream.\<close>

lemma decode_cum_total_zero: "decode_cum 0 0 MAX_RANGE v = 0xFFFFFFFF"
proof -
  have "(- 1 :: u64) div 0x100000000 = 0xFFFFFFFF" by code_simp
  then show ?thesis by (simp add: decode_cum_def MAX_RANGE_def Let_def)
qed

text \<open>An iteration whose byte has no table entry leaves the state as it is (\<^verbatim>\<open>continue\<close>), so
  every later iteration decodes the same byte.\<close>

lemma decode_loop_skip:
  assumes "find (\<lambda>s. sym_value s = decodeSymbol enc (decode_cum (total_count enc) low high v))
             (symbols enc) = None"
  shows "decode_loop enc n (low, high, v, r) out
    = Inr (out @ replicate n (decodeSymbol enc (decode_cum (total_count enc) low high v)))"
proof (induction n arbitrary: out)
  case 0
  show ?case by simp
next
  case (Suc n)
  show ?case using assms Suc by (simp add: Let_def)
qed

lemma decode_loop_division:
  assumes "total_count enc = 0"
    and "find (\<lambda>s. sym_value s = decodeSymbol enc (decode_cum (total_count enc) low high v))
           (symbols enc) \<noteq> None"
  shows "decode_loop enc (Suc n) (low, high, v, r) out = Inl DivisionByZero"
  using assms by (auto simp add: Let_def)

lemma decodeData_total_zero:
  assumes "total_count enc = 0"
  shows "decodeData enc reader [] sz =
     (if sz = 0 then Inr []
      else if find (\<lambda>s. sym_value s = decodeSymbol enc 0xFFFFFFFF) (symbols enc) = None
        then Inr (replicate (unat sz) (decodeSymbol enc 0xFFFFFFFF))
      else Inl DivisionByZero)"
proof -
  obtain v r where rv: "read_value 32 0 reader = (v, r)"
    by (cases "read_value 32 0 reader") auto
  have c: "decode_cum (total_count enc) 0 MAX_RANGE v = 0xFFFFFFFF"
    unfolding assms by (rule decode_cum_total_zero)
  show ?thesis
  proof (cases "sz = 0")
    case True
    then show ?thesis by (simp add: decodeData_def rv)
  next
    case False
    then obtain m where m: "unat sz = Suc m"
      by (metis not0_implies_Suc unat_eq_zero)
    show ?thesis
    proof (cases "find (\<lambda>s. sym_value s = decodeSymbol enc 0xFFFFFFFF) (symbols enc)")
      case None
      then have "find (\<lambda>s. sym_value s = decodeSymbol enc (decode_cum (total_count enc) 0 MAX_RANGE v))
          (symbols enc) = None" unfolding c .
      from decode_loop_skip [OF this, of "unat sz" r "[]"] show ?thesis
        using False None by (simp add: decodeData_def rv c)
    next
      case (Some it)
      then have "find (\<lambda>s. sym_value s = decodeSymbol enc (decode_cum (total_count enc) 0 MAX_RANGE v))
          (symbols enc) \<noteq> None" unfolding c by simp
      from decode_loop_division [OF assms this, of m r "[]"] show ?thesis
        using False Some by (simp add: decodeData_def rv m)
    qed
  qed
qed

text \<open>A table whose counts are all 0 has only empty ranges, so \<^verbatim>\<open>decodeSymbol\<close> returns byte 0
  for every \<open>cum\<close>; if moreover no entry is for byte 0 (the empty table included), the decoded
  byte has no entry.\<close>

lemma cum_ranges_zero:
  assumes "\<forall>p \<in> set xs. snd p = 0"
  shows "\<forall>s \<in> set (cum_ranges c xs). sym_low s = c \<and> sym_high s = c \<and> sym_value s \<in> fst ` set xs"
  using assms by (induction xs arbitrary: c) (auto simp add: case_prod_beta)

lemma no_entry_zero_counts:
  assumes "\<forall>p \<in> set counts. snd p = 0 \<and> fst p \<noteq> 0"
  shows "find (\<lambda>s. sym_value s = decodeSymbol (buildSymbolsFromCounts counts enc) cum)
           (symbols (buildSymbolsFromCounts counts enc)) = None"
proof -
  have z: "\<forall>s \<in> set (cum_ranges 0 counts). sym_low s = 0 \<and> sym_high s = 0 \<and> sym_value s \<in> fst ` set counts"
    using assms by (intro cum_ranges_zero) simp
  then have "find (\<lambda>s. sym_low s \<le> cum \<and> cum < sym_high s) (cum_ranges 0 counts) = None"
    by (auto simp add: find_None_iff word_less_nat_alt)
  then have d: "decodeSymbol (buildSymbolsFromCounts counts enc) cum = 0"
    by (simp add: decodeSymbol_def symbols_buildSymbolsFromCounts)
  have "\<forall>s \<in> set (cum_ranges 0 counts). sym_value s \<noteq> 0"
  proof
    fix s assume s: "s \<in> set (cum_ranges 0 counts)"
    then obtain p where "p \<in> set counts" "sym_value s = fst p" using z by auto
    then show "sym_value s \<noteq> 0" using assms by simp
  qed
  then show ?thesis unfolding d by (simp add: find_None_iff symbols_buildSymbolsFromCounts)
qed

text \<open>
  Claim C10, amended. Take a file made of the magic, a size field \<open>sz\<close>, a symbol count, a
  complete table of that many entries and any bitstream. If \<open>sz \<le> 2^63 - 1\<close>, then
  \<^verbatim>\<open>decompress\<close> writes exactly \<open>sz\<close> bytes in each of these cases: \<open>sz = 0\<close>; the counts of the
  table do not sum to 0 modulo \<open>2^64\<close>; the table has no entry for the byte that
  \<^verbatim>\<open>decodeSymbol\<close> returns for the cumulative value \<open>2^32 - 1\<close>, the first one computed when
  \<^verbatim>\<open>total_count\<close> is 0 (so for the empty table, and for a table of zero counts without byte
  0). In the remaining case the decoder divides by \<^verbatim>\<open>total_count = 0\<close> in its first
  iteration. If \<open>sz > 2^63 - 1\<close>, \<^verbatim>\<open>reserve\<close> throws \<^verbatim>\<open>std::length_error\<close>. Nothing is written in
  these two cases. A cumulative value that no entry holds is mapped to byte 0.
\<close>

theorem decompress_output_length:
  assumes "length counts = unat n"
  shows "(sz \<le> max_size
          \<and> (sz = 0 \<or> sum_list (map snd counts) \<noteq> 0
               \<or> find (\<lambda>s. sym_value s = decodeSymbol (buildSymbolsFromCounts counts enc) 0xFFFFFFFF)
                    (symbols (buildSymbolsFromCounts counts enc)) = None) \<longrightarrow>
            (case decompress enc
                    (Some (magic @ writeUint64 sz @ writeUint32 n @ table_bytes counts @ bitstream)) True of
               Inl e \<Rightarrow> False
             | Inr (decoded, enc') \<Rightarrow> length decoded = unat sz))
         \<and> (sz \<le> max_size \<and> sz \<noteq> 0 \<and> sum_list (map snd counts) = 0
            \<and> find (\<lambda>s. sym_value s = decodeSymbol (buildSymbolsFromCounts counts enc) 0xFFFFFFFF)
                 (symbols (buildSymbolsFromCounts counts enc)) \<noteq> None \<longrightarrow>
            decompress enc
              (Some (magic @ writeUint64 sz @ writeUint32 n @ table_bytes counts @ bitstream)) True
              = Inl DivisionByZero)
         \<and> (max_size < sz \<longrightarrow>
            decompress enc
              (Some (magic @ writeUint64 sz @ writeUint32 n @ table_bytes counts @ bitstream)) True
              = Inl LengthError)
         \<and> ((\<forall>s \<in> set (symbols enc). \<not> (sym_low s \<le> cum \<and> cum < sym_high s)) \<longrightarrow>
              decodeSymbol enc cum = 0)"
proof (intro conjI impI)
  let ?e = "buildSymbolsFromCounts counts enc"
  let ?f = "magic @ writeUint64 sz @ writeUint32 n @ table_bytes counts @ bitstream"
  note wf = decompress_wellformed [OF assms, of enc sz bitstream]
  have t: "total_count ?e = sum_list (map snd counts)"
    by (simp add: total_buildSymbolsFromCounts)
  {
    assume a: "sz \<le> max_size
          \<and> (sz = 0 \<or> sum_list (map snd counts) \<noteq> 0
               \<or> find (\<lambda>s. sym_value s = decodeSymbol ?e 0xFFFFFFFF) (symbols ?e) = None)"
    then have le: "\<not> max_size < sz" by (simp add: not_less)
    have "\<exists>out. decodeData ?e (new_reader bitstream) [] sz = Inr out \<and> length out = unat sz"
    proof (cases "total_count ?e = 0")
      case True
      show ?thesis using a t True unfolding decodeData_total_zero [OF True] by auto
    next
      case False
      then have "total_count ?e \<noteq> 0 \<or> symbols ?e = []" by simp
      from decode_loop_length [OF this] show ?thesis
        unfolding decodeData_def by (cases "read_value 32 0 (new_reader bitstream)") fastforce
    qed
    then show "case decompress enc (Some ?f) True of
               Inl e \<Rightarrow> False
             | Inr (decoded, enc') \<Rightarrow> length decoded = unat sz"
      unfolding wf using le by auto
  }
  {
    assume a: "sz \<le> max_size \<and> sz \<noteq> 0 \<and> sum_list (map snd counts) = 0
            \<and> find (\<lambda>s. sym_value s = decodeSymbol ?e 0xFFFFFFFF) (symbols ?e) \<noteq> None"
    then have le: "\<not> max_size < sz" by (simp add: not_less)
    have z: "total_count ?e = 0" using a t by simp
    show "decompress enc (Some ?f) True = Inl DivisionByZero"
      unfolding wf decodeData_total_zero [OF z] using a le by auto
  }
  {
    assume "max_size < sz"
    then show "decompress enc (Some ?f) True = Inl LengthError"
      unfolding wf by simp
  }
  show "(\<forall>s \<in> set (symbols enc). \<not> (sym_low s \<le> cum \<and> cum < sym_high s)) \<Longrightarrow>
              decodeSymbol enc cum = 0"
    by (auto simp add: decodeSymbol_def find_None_iff split: option.split dest: find_Some_iff [THEN iffD1])
qed

theorem decompress_output_length_witness:
  "length [(0x61 :: byte, 3 :: u64), (0x62, 1), (0x63, 1)] = unat (3 :: u32)
   \<and> (5 :: u64) \<le> max_size
   \<and> sum_list (map snd [(0x61 :: byte, 3 :: u64), (0x62, 1), (0x63, 1)]) = 5
   \<and> decompress \<lparr>symbols = [], total_count = 0\<rparr>
        (Some (magic @ writeUint64 5 @ writeUint32 3 @ table_bytes [(0x61, 3), (0x62, 1), (0x63, 1)]
               @ [0x6B])) True
      = Inr ([0x61, 0x62, 0x61, 0x63, 0x61],
             \<lparr>symbols = [\<lparr>sym_value = 0x61, sym_low = 0, sym_high = 3, sym_count = 3\<rparr>,
                         \<lparr>sym_value = 0x62, sym_low = 3, sym_high = 4, sym_count = 1\<rparr>,
                         \<lparr>sym_value = 0x63, sym_low = 4, sym_high = 5, sym_count = 1\<rparr>],
              total_count = 5\<rparr>)
   \<and> length [0x61, 0x62, 0x61, 0x63, 0x61 :: byte] = unat (5 :: u64)
   \<and> length [(5 :: byte, 0 :: u64)] = unat (1 :: u32)
   \<and> (2 :: u64) \<le> max_size
   \<and> find (\<lambda>s. sym_value s
                = decodeSymbol (buildSymbolsFromCounts [(5, 0)] \<lparr>symbols = [], total_count = 0\<rparr>) 0xFFFFFFFF)
        (symbols (buildSymbolsFromCounts [(5, 0)] \<lparr>symbols = [], total_count = 0\<rparr>)) = None
   \<and> decompress \<lparr>symbols = [], total_count = 0\<rparr>
        (Some (magic @ writeUint64 2 @ writeUint32 1 @ table_bytes [(5, 0)] @ [0xFF])) True
      = Inr ([0, 0],
             \<lparr>symbols = [\<lparr>sym_value = 5, sym_low = 0, sym_high = 0, sym_count = 0\<rparr>], total_count = 0\<rparr>)
   \<and> length [(0 :: byte, 0 :: u64)] = unat (1 :: u32)
   \<and> (2 :: u64) \<noteq> 0
   \<and> sum_list (map snd [(0 :: byte, 0 :: u64)]) = 0
   \<and> find (\<lambda>s. sym_value s
                = decodeSymbol (buildSymbolsFromCounts [(0, 0)] \<lparr>symbols = [], total_count = 0\<rparr>) 0xFFFFFFFF)
        (symbols (buildSymbolsFromCounts [(0, 0)] \<lparr>symbols = [], total_count = 0\<rparr>))
      = Some \<lparr>sym_value = 0, sym_low = 0, sym_high = 0, sym_count = 0\<rparr>
   \<and> decompress \<lparr>symbols = [], total_count = 0\<rparr>
        (Some (magic @ writeUint64 2 @ writeUint32 1 @ table_bytes [(0, 0)] @ [0xFF])) True
      = Inl DivisionByZero
   \<and> length ([] :: (byte \<times> u64) list) = unat (0 :: u32)
   \<and> max_size < (0xFFFFFFFFFFFFFFFF :: u64)
   \<and> decompress \<lparr>symbols = [], total_count = 0\<rparr>
        (Some (magic @ writeUint64 0xFFFFFFFFFFFFFFFF @ writeUint32 0 @ table_bytes [] @ [])) True
      = Inl LengthError
   \<and> decodeSymbol \<lparr>symbols = [], total_count = 0\<rparr> 7 = 0"
proof -
  let ?e0 = "\<lparr>symbols = [], total_count = 0 :: u64\<rparr>"
  have h1: "length [(0x61 :: byte, 3 :: u64), (0x62, 1), (0x63, 1)] = unat (3 :: u32)" by simp
  have s1: "sum_list (map snd [(0x61 :: byte, 3 :: u64), (0x62, 1), (0x63, 1)]) = 5" by simp
  have m1: "(5 :: u64) \<le> max_size" by (simp add: max_size_def)
  have d1: "decompress ?e0
        (Some (magic @ writeUint64 5 @ writeUint32 3 @ table_bytes [(0x61, 3), (0x62, 1), (0x63, 1)]
               @ [0x6B])) True
      = Inr ([0x61, 0x62, 0x61, 0x63, 0x61],
             \<lparr>symbols = [\<lparr>sym_value = 0x61, sym_low = 0, sym_high = 3, sym_count = 3\<rparr>,
                         \<lparr>sym_value = 0x62, sym_low = 3, sym_high = 4, sym_count = 1\<rparr>,
                         \<lparr>sym_value = 0x63, sym_low = 4, sym_high = 5, sym_count = 1\<rparr>],
              total_count = 5\<rparr>)"
    by code_simp
  have h2: "length [(5 :: byte, 0 :: u64)] = unat (1 :: u32)" by simp
  have m2: "(2 :: u64) \<le> max_size" by (simp add: max_size_def)
  have f2: "find (\<lambda>s. sym_value s = decodeSymbol (buildSymbolsFromCounts [(5, 0)] ?e0) 0xFFFFFFFF)
        (symbols (buildSymbolsFromCounts [(5, 0)] ?e0)) = None"
    by code_simp
  have d2: "decompress ?e0
        (Some (magic @ writeUint64 2 @ writeUint32 1 @ table_bytes [(5, 0)] @ [0xFF])) True
      = Inr ([0, 0],
             \<lparr>symbols = [\<lparr>sym_value = 5, sym_low = 0, sym_high = 0, sym_count = 0\<rparr>], total_count = 0\<rparr>)"
    by code_simp
  have h3: "length [(0 :: byte, 0 :: u64)] = unat (1 :: u32)" by simp
  have f3: "find (\<lambda>s. sym_value s = decodeSymbol (buildSymbolsFromCounts [(0, 0)] ?e0) 0xFFFFFFFF)
        (symbols (buildSymbolsFromCounts [(0, 0)] ?e0))
      = Some \<lparr>sym_value = 0, sym_low = 0, sym_high = 0, sym_count = 0\<rparr>"
    by code_simp
  have h4: "length ([] :: (byte \<times> u64) list) = unat (0 :: u32)" by simp
  have m4: "max_size < (0xFFFFFFFFFFFFFFFF :: u64)" by (simp add: max_size_def)
  note a = decompress_output_length [OF h1, where enc = ?e0 and sz = 5 and bitstream = "[0x6B]"
      and cum = 7]
  note b = decompress_output_length [OF h2, where enc = ?e0 and sz = 2 and bitstream = "[0xFF]"
      and cum = 7]
  note c = decompress_output_length [OF h3, where enc = ?e0 and sz = 2 and bitstream = "[0xFF]"
      and cum = 7]
  note d = decompress_output_length [OF h4, where enc = ?e0 and sz = "0xFFFFFFFFFFFFFFFF"
      and bitstream = "[]" and cum = 7]
  have r3: "decompress ?e0
        (Some (magic @ writeUint64 2 @ writeUint32 1 @ table_bytes [(0, 0)] @ [0xFF])) True
      = Inl DivisionByZero"
    using c m2 f3 by simp
  have r4: "decompress ?e0
        (Some (magic @ writeUint64 0xFFFFFFFFFFFFFFFF @ writeUint32 0 @ table_bytes [] @ [])) True
      = Inl LengthError"
    using d m4 by simp
  have r0: "decodeSymbol ?e0 7 = 0" using a by simp
  show ?thesis
    using h1 s1 m1 d1 h2 m2 f2 d2 h3 f3 r3 h4 m4 r4 r0 by simp
qed

text \<open>The claim as stated fails on a well-formed file whose table sums to 0: with the one
  entry \<open>(0, 0)\<close> and size 1 the decoder divides by \<open>total_count = 0\<close>.\<close>

theorem decompress_output_length_counterexample:
  "decompress \<lparr>symbols = [], total_count = 0\<rparr>
     (Some [0x41, 0x52, 0x49, 0x54, 0, 0, 0, 0, 0, 0, 0, 1, 0, 0, 0, 1, 0, 0, 0, 0, 0, 0, 0, 0, 0]) True
   = Inl DivisionByZero"
  by code_simp

text \<open>
  Claim C2, amended. \<^verbatim>\<open>decompress\<close> fails with \<open>InvalidFileFormat\<close> for every file whose first
  four bytes are not the magic (shorter files too), and with \<open>UnexpectedEOF\<close> for every file
  that ends inside the 12 bytes of size and symbol count or inside the table that the
  symbol count announces (9 bytes per entry). No output is written in these cases. The
  end of the bitstream is not checked.
\<close>

theorem decompress_rejects_malformed:
  "(take 4 infile \<noteq> magic \<longrightarrow> decompress enc (Some infile) can_create = Inl InvalidFileFormat)
   \<and> (length rest < 12 \<longrightarrow>
        decompress enc (Some (magic @ rest)) can_create = Inl UnexpectedEOF)
   \<and> (length tbl < 9 * unat n \<longrightarrow>
        decompress enc (Some (magic @ writeUint64 sz @ writeUint32 n @ tbl)) can_create
          = Inl UnexpectedEOF)"
proof (intro conjI impI)
  assume "take 4 infile \<noteq> magic"
  then show "decompress enc (Some infile) can_create = Inl InvalidFileFormat"
    by (simp add: decompress_def)
next
  assume r: "length rest < 12"
  show "decompress enc (Some (magic @ rest)) can_create = Inl UnexpectedEOF"
  proof (cases "length rest < 8")
    case True
    then show ?thesis by (simp add: decompress_def readUint64_def read_be_short)
  next
    case False
    then obtain v where v: "readUint64 rest = Inr (v, drop 8 rest)"
      using read_be_long [of 8 rest 0] by (auto simp add: readUint64_def)
    have "readUint32 (drop 8 rest) = Inl UnexpectedEOF"
      using r by (simp add: readUint32_def read_be_short)
    then show ?thesis using v by (simp add: decompress_def)
  qed
next
  assume "length tbl < 9 * unat n"
  then show "decompress enc (Some (magic @ writeUint64 sz @ writeUint32 n @ tbl)) can_create
      = Inl UnexpectedEOF"
    by (simp add: decompress_def readUint64_writeUint64 readUint32_writeUint32 read_counts_short)
qed

theorem decompress_rejects_malformed_witness:
  "take 4 [0x41, 0x52, 0x49, 0x55, 0 :: byte] \<noteq> magic
   \<and> decompress \<lparr>symbols = [], total_count = 0\<rparr> (Some [0x41, 0x52, 0x49, 0x55, 0]) True
       = Inl InvalidFileFormat
   \<and> length [0, 0, 0 :: byte] < 12
   \<and> decompress \<lparr>symbols = [], total_count = 0\<rparr> (Some (magic @ [0, 0, 0])) True
       = Inl UnexpectedEOF
   \<and> length [0x61, 0, 0 :: byte] < 9 * unat (1 :: u32)
   \<and> decompress \<lparr>symbols = [], total_count = 0\<rparr>
        (Some (magic @ writeUint64 1 @ writeUint32 1 @ [0x61, 0, 0])) True
       = Inl UnexpectedEOF"
  using decompress_rejects_malformed
    [where infile = "[0x41, 0x52, 0x49, 0x55, 0]" and enc = "\<lparr>symbols = [], total_count = 0\<rparr>"
       and can_create = True and rest = "[0, 0, 0]" and tbl = "[0x61, 0, 0]" and n = 1 and sz = 1]
  by (simp add: magic_def)

text \<open>The claim as stated fails for a file cut inside the bitstream: the file that
  \<^verbatim>\<open>compress\<close> writes for \<open>abaca\<close>, without its last byte, is accepted and decoded to
  \<open>aaaaa\<close>.\<close>

theorem decompress_truncated_bitstream_counterexample:
  "compress \<lparr>symbols = [], total_count = 0\<rparr> (Some [0x61, 0x62, 0x61, 0x63, 0x61]) True
     = Inr ([0x41, 0x52, 0x49, 0x54, 0, 0, 0, 0, 0, 0, 0, 5, 0, 0, 0, 3,
             0x61, 0, 0, 0, 0, 0, 0, 0, 3, 0x62, 0, 0, 0, 0, 0, 0, 0, 1,
             0x63, 0, 0, 0, 0, 0, 0, 0, 1, 0x6B],
            \<lparr>stat_original_size = 5, stat_compressed_size = 44,
             stat_space_saved = 0xFFFFFFFFFFFFFFD9\<rparr>,
            \<lparr>symbols = [\<lparr>sym_value = 0x61, sym_low = 0, sym_high = 3, sym_count = 3\<rparr>,
                        \<lparr>sym_value = 0x62, sym_low = 3, sym_high = 4, sym_count = 1\<rparr>,
                        \<lparr>sym_value = 0x63, sym_low = 4, sym_high = 5, sym_count = 1\<rparr>],
             total_count = 5\<rparr>)
   \<and> decompress \<lparr>symbols = [], total_count = 0\<rparr>
       (Some [0x41, 0x52, 0x49, 0x54, 0, 0, 0, 0, 0, 0, 0, 5, 0, 0, 0, 3,
              0x61, 0, 0, 0, 0, 0, 0, 0, 3, 0x62, 0, 0, 0, 0, 0, 0, 0, 1,
              0x63, 0, 0, 0, 0, 0, 0, 0, 1]) True
     = Inr ([0x61, 0x61, 0x61, 0x61, 0x61],
            \<lparr>symbols = [\<lparr>sym_value = 0x61, sym_low = 0, sym_high = 3, sym_count = 3\<rparr>,
                        \<lparr>sym_value = 0x62, sym_low = 3, sym_high = 4, sym_count = 1\<rparr>,
                        \<lparr>sym_value = 0x63, sym_low = 4, sym_high = 5, sym_count = 1\<rparr>],
             total_count = 5\<rparr>)"
  by code_simp

section \<open>One renormalisation iteration\<close>

text \<open>\<open>renorm_step low high\<close> is what one iteration of either \<^verbatim>\<open>for (;;)\<close> loop does to \<open>low\<close> and
  \<open>high\<close>: \<open>None\<close> when the loop breaks.\<close>

definition renorm_step :: "u32 \<Rightarrow> u32 \<Rightarrow> (u32 \<times> u32) option" where
  "renorm_step low high =
     (if high < HALF then Some (push_bit 1 low, push_bit 1 high OR 1)
      else if low \<ge> HALF then Some (push_bit 1 (low - HALF), push_bit 1 (high - HALF) OR 1)
      else if low \<ge> FIRST_QTR \<and> high < THIRD_QTR
        then Some (push_bit 1 (low - FIRST_QTR), push_bit 1 (high - FIRST_QTR) OR 1)
      else None)"

lemma renorm_step_rel:
  "renorm_step low high = Some (l', h') \<Longrightarrow> ((l', h'), (low, high)) \<in> renorm_rel"
  using E1_rel [of high low] E2_rel [of low high] E3_rel [of high low]
  by (auto simp add: renorm_step_def split: if_splits)

lemma renorm_induct [case_names step]:
  assumes "\<And>low high. (\<And>l' h'. renorm_step low high = Some (l', h') \<Longrightarrow> P l' h') \<Longrightarrow> P low high"
  shows "P low high"
proof -
  have "P (fst p) (snd p)" for p
  proof (induction p rule: wf_induct_rule [OF wf_renorm_rel])
    case (1 p)
    show ?case
    proof (rule assms)
      fix l' h'
      assume "renorm_step (fst p) (snd p) = Some (l', h')"
      then have "((l', h'), p) \<in> renorm_rel" using renorm_step_rel [of "fst p" "snd p" l' h'] by simp
      from 1 [OF this] show "P l' h'" by simp
    qed
  qed
  from this [of "(low, high)"] show ?thesis by simp
qed

subsection \<open>The iteration in natural numbers\<close>

lemma unat_HALF: "unat HALF = 2147483648" by (simp add: HALF_def)
lemma unat_FIRST_QTR: "unat FIRST_QTR = 1073741824" by (simp add: FIRST_QTR_def)
lemma unat_THIRD_QTR: "unat THIRD_QTR = 3221225472" by (simp add: THIRD_QTR_def)
lemma unat_MAX_RANGE: "unat MAX_RANGE = 4294967295" by (simp add: MAX_RANGE_def)

lemma unat_dbl:
  assumes "unat x < 2147483648"
  shows "unat (push_bit 1 (x :: u32)) = 2 * unat x"
proof -
  have "unat x * unat (2 :: u32) < 2 ^ LENGTH(32)" using assms by simp
  then have "unat (x * 2) = unat x * unat (2 :: u32)" by (simp only: unat_mult_lem)
  then show ?thesis by simp
qed

lemma unat_dbl1:
  assumes "unat x < 2147483648"
  shows "unat (push_bit 1 (x :: u32) OR 1) = 2 * unat x + 1"
proof -
  have "unat (push_bit 1 x) + unat (1 :: u32) < 2 ^ LENGTH(32)"
    using assms unat_dbl [OF assms] by simp
  then have "unat (push_bit 1 x + 1) = unat (push_bit 1 x) + unat (1 :: u32)"
    by (simp only: unat_add_lem)
  then show ?thesis using assms unat_dbl [OF assms] shl_or1 [of x] by (simp add: mult.commute)
qed

text \<open>The three scalings on a state with \<open>low \<le> high\<close>, and the exit.\<close>

lemma renorm_step_cases [consumes 1, case_names E1 E2 E3 Exit]:
  assumes "low \<le> high"
    and "\<And>l' h'. \<lbrakk>unat high < 2147483648; renorm_step low high = Some (l', h');
            unat l' = 2 * unat low; unat h' = 2 * unat high + 1\<rbrakk> \<Longrightarrow> R"
    and "\<And>l' h'. \<lbrakk>2147483648 \<le> unat low; renorm_step low high = Some (l', h');
            unat l' = 2 * (unat low - 2147483648); unat h' = 2 * (unat high - 2147483648) + 1\<rbrakk> \<Longrightarrow> R"
    and "\<And>l' h'. \<lbrakk>1073741824 \<le> unat low; unat low < 2147483648; 2147483648 \<le> unat high;
            unat high < 3221225472; renorm_step low high = Some (l', h');
            unat l' = 2 * (unat low - 1073741824); unat h' = 2 * (unat high - 1073741824) + 1\<rbrakk> \<Longrightarrow> R"
    and "\<lbrakk>renorm_step low high = None; unat low < 2147483648; 2147483648 \<le> unat high;
            unat low < 1073741824 \<or> 3221225472 \<le> unat high\<rbrakk> \<Longrightarrow> R"
  shows R
proof -
  have lh: "unat low \<le> unat high" using assms(1) by (simp add: word_le_nat_alt)
  have hb: "unat high < 4294967296" using unsigned_less [of high, where 'a = nat] by simp
  consider (a) "high < HALF" | (b) "\<not> high < HALF" "HALF \<le> low"
    | (c) "\<not> high < HALF" "\<not> HALF \<le> low" "FIRST_QTR \<le> low \<and> high < THIRD_QTR"
    | (d) "\<not> high < HALF" "\<not> HALF \<le> low" "\<not> (FIRST_QTR \<le> low \<and> high < THIRD_QTR)" by blast
  then show R
  proof cases
    case a
    then have h: "unat high < 2147483648" by (simp add: word_less_nat_alt unat_HALF)
    then have l: "unat low < 2147483648" using lh by simp
    show R
      by (rule assms(2) [OF h _ unat_dbl [OF l] unat_dbl1 [OF h]]) (simp add: renorm_step_def a)
  next
    case b
    then have l: "2147483648 \<le> unat low" by (simp add: word_le_nat_alt unat_HALF)
    have hh: "HALF \<le> high" using b(2) assms(1) by simp
    have ul: "unat (low - HALF) = unat low - 2147483648" using b(2) by (simp add: unat_sub unat_HALF)
    have uh: "unat (high - HALF) = unat high - 2147483648" using hh by (simp add: unat_sub unat_HALF)
    have bl: "unat (low - HALF) < 2147483648" using ul lh hb by simp
    have bh: "unat (high - HALF) < 2147483648" using uh hb by simp
    show R
      by (rule assms(3) [OF l _ unat_dbl [OF bl, unfolded ul] unat_dbl1 [OF bh, unfolded uh]])
        (simp add: renorm_step_def b)
  next
    case c
    then have l: "1073741824 \<le> unat low" "unat low < 2147483648"
      and h: "2147483648 \<le> unat high" "unat high < 3221225472"
      by (simp_all add: word_le_nat_alt word_less_nat_alt unat_HALF unat_FIRST_QTR unat_THIRD_QTR)
    have qh: "FIRST_QTR \<le> high" using c(3) assms(1) by auto
    have ul: "unat (low - FIRST_QTR) = unat low - 1073741824"
      using c(3) by (simp add: unat_sub unat_FIRST_QTR)
    have uh: "unat (high - FIRST_QTR) = unat high - 1073741824"
      using qh by (simp add: unat_sub unat_FIRST_QTR)
    have bl: "unat (low - FIRST_QTR) < 2147483648" using ul l by simp
    have bh: "unat (high - FIRST_QTR) < 2147483648" using uh h by simp
    show R
      by (rule assms(4) [OF l h _ unat_dbl [OF bl, unfolded ul] unat_dbl1 [OF bh, unfolded uh]])
        (simp add: renorm_step_def c)
  next
    case d
    then have "unat low < 2147483648" "2147483648 \<le> unat high"
      "unat low < 1073741824 \<or> 3221225472 \<le> unat high"
      by (auto simp add: word_le_nat_alt word_less_nat_alt unat_HALF unat_FIRST_QTR unat_THIRD_QTR)
    moreover have "renorm_step low high = None" using d by (simp add: renorm_step_def)
    ultimately show R using assms(5) by blast
  qed
qed

lemma renorm_step_le:
  assumes "low \<le> high" "renorm_step low high = Some (l', h')"
  shows "l' \<le> h'" and "rng l' h' = 2 * rng low high"
proof -
  have lh: "unat low \<le> unat high" using assms(1) by (simp add: word_le_nat_alt)
  have "unat l' \<le> unat h' \<and> unat h' - unat l' + 1 = 2 * (unat high - unat low + 1)"
    using assms(1)
  proof (cases rule: renorm_step_cases)
    case (E1 l h)
    then show ?thesis using assms(2) lh by auto
  next
    case (E2 l h)
    then show ?thesis using assms(2) lh by auto
  next
    case (E3 l h)
    then show ?thesis using assms(2) lh by auto
  next
    case Exit
    then show ?thesis using assms(2) by simp
  qed
  then show "l' \<le> h'" and "rng l' h' = 2 * rng low high"
    using assms(1) by (simp_all add: word_le_nat_alt rng_le)
qed

lemma renorm_done_range:
  assumes "low \<le> high" "renorm_step low high = None"
  shows "1073741824 < rng low high"
  using assms(1)
proof (cases rule: renorm_step_cases)
  case (E1 l h)
  then show ?thesis using assms(2) by simp
next
  case (E2 l h)
  then show ?thesis using assms(2) by simp
next
  case (E3 l h)
  then show ?thesis using assms(2) by simp
next
  case Exit
  then show ?thesis using assms(1) by (auto simp add: rng_le)
qed

section \<open>The states that the coding loops visit\<close>

text \<open>
  \<open>enc_visits enc low high\<close>: the encode loop of \<^verbatim>\<open>encodeData\<close>, run with the model \<open>enc\<close> on
  some sequence of bytes, can hold \<open>low\<close> and \<open>high\<close> at one of its points: at the start,
  after the narrowing for a byte (done at the head of the loop, where no scaling
  applies), or after an iteration of the renormalisation loop.
\<close>

inductive enc_visits :: "ArithmeticEncoder \<Rightarrow> u32 \<Rightarrow> u32 \<Rightarrow> bool" for enc where
  enc_init: "enc_visits enc 0 MAX_RANGE"
| enc_narrow:
    "\<lbrakk>enc_visits enc low high; renorm_step low high = None;
      find (\<lambda>s. sym_value s = byte) (symbols enc) = Some it; total_count enc \<noteq> 0;
      encode_narrow (total_count enc) it low high = (low', high')\<rbrakk>
     \<Longrightarrow> enc_visits enc low' high'"
| enc_scale:
    "\<lbrakk>enc_visits enc low high; renorm_step low high = Some (low', high')\<rbrakk>
     \<Longrightarrow> enc_visits enc low' high'"

text \<open>\<open>scale_value low high v b\<close>: what an iteration of the decoder's renormalisation loop does
  to \<open>value\<close> when it reads the bit \<open>b\<close>.\<close>

definition scale_value :: "u32 \<Rightarrow> u32 \<Rightarrow> u32 \<Rightarrow> bool \<Rightarrow> u32" where
  "scale_value low high v b =
     push_bit 1 (v - (if high < HALF then 0 else if low \<ge> HALF then HALF else FIRST_QTR))
       OR of_bool b"

text \<open>\<open>dec_visits enc low high v\<close>: the same for the decode loop of \<^verbatim>\<open>decodeData\<close>, on some
  bitstream. The entry used for narrowing is the first one with the byte value that
  \<^verbatim>\<open>decodeSymbol\<close> returned.\<close>

inductive dec_visits :: "ArithmeticEncoder \<Rightarrow> u32 \<Rightarrow> u32 \<Rightarrow> u32 \<Rightarrow> bool" for enc where
  dec_init: "dec_visits enc 0 MAX_RANGE v"
| dec_narrow:
    "\<lbrakk>dec_visits enc low high v; renorm_step low high = None;
      find (\<lambda>s. sym_value s = decodeSymbol enc (decode_cum (total_count enc) low high v))
        (symbols enc) = Some it;
      total_count enc \<noteq> 0;
      decode_narrow (total_count enc) it low high = (low', high')\<rbrakk>
     \<Longrightarrow> dec_visits enc low' high' v"
| dec_scale:
    "\<lbrakk>dec_visits enc low high v; renorm_step low high = Some (low', high')\<rbrakk>
     \<Longrightarrow> dec_visits enc low' high' (scale_value low high v b)"

text \<open>The loops of the model in terms of \<open>renorm_step\<close>.\<close>

definition write_bits :: "bool list \<Rightarrow> BitWriter \<Rightarrow> BitWriter" where
  "write_bits bs w = foldl (\<lambda>w b. writeBit b w) w bs"

text \<open>The bits that an iteration of the encoder's renormalisation loop writes, and the
  counter after it.\<close>

definition scale_bits :: "u32 \<Rightarrow> u32 \<Rightarrow> u32 \<Rightarrow> bool list" where
  "scale_bits low high bits_to_follow =
     (if high < HALF then False # replicate (unat bits_to_follow) True
      else if low \<ge> HALF then True # replicate (unat bits_to_follow) False
      else [])"

definition scale_follow :: "u32 \<Rightarrow> u32 \<Rightarrow> u32 \<Rightarrow> u32" where
  "scale_follow low high bits_to_follow =
     (if high < HALF \<or> low \<ge> HALF then 0 else bits_to_follow + 1)"

lemma write_repeat_bits: "write_repeat b n w = write_bits (replicate n b) w"
  by (induction n arbitrary: w) (simp_all add: write_bits_def)

lemma write_follow_bits: "write_follow b n w = write_bits (replicate (unat n) b) w"
  by (simp add: write_follow_def write_repeat_bits)

lemma write_bits_Cons: "write_bits (b # bs) w = write_bits bs (writeBit b w)"
  by (simp add: write_bits_def)

lemma write_bits_append: "write_bits (as @ bs) w = write_bits bs (write_bits as w)"
  by (simp add: write_bits_def)

lemma encode_renorm_None:
  "renorm_step low high = None \<Longrightarrow> encode_renorm low high btf w = (low, high, btf, w)"
  by (subst encode_renorm.simps) (auto simp add: renorm_step_def split: if_splits)

lemma encode_renorm_Some:
  "renorm_step low high = Some (l', h') \<Longrightarrow>
     encode_renorm low high btf w
       = encode_renorm l' h' (scale_follow low high btf) (write_bits (scale_bits low high btf) w)"
  by (subst encode_renorm.simps)
    (auto simp add: renorm_step_def scale_follow_def scale_bits_def write_follow_bits
      write_bits_Cons write_bits_def split: if_splits)

lemma decode_renorm_None:
  "renorm_step low high = None \<Longrightarrow> decode_renorm low high v r = (low, high, v, r)"
  by (subst decode_renorm.simps) (auto simp add: renorm_step_def split: if_splits)

lemma decode_renorm_Some:
  "renorm_step low high = Some (l', h') \<Longrightarrow>
     decode_renorm low high v r
       = decode_renorm l' h' (scale_value low high v (fst (readBit r))) (snd (readBit r))"
  by (subst decode_renorm.simps)
    (auto simp add: renorm_step_def scale_value_def split: if_splits prod.splits)

section \<open>The invariant \<open>low \<le> high\<close>\<close>

text \<open>\<open>coder_model enc\<close>: the table partitions \<open>[0, total_count)\<close>, every entry has a positive
  count, and \<open>1 \<le> total_count \<le> 2^30\<close>.\<close>

definition coder_model :: "ArithmeticEncoder \<Rightarrow> bool" where
  "coder_model enc =
     (contiguous 0 (symbols enc) (unat (total_count enc))
      \<and> (\<forall>s \<in> set (symbols enc). 0 < unat (sym_count s))
      \<and> 0 < unat (total_count enc) \<and> unat (total_count enc) \<le> 2 ^ 30)"

lemma coder_model_entry:
  assumes "coder_model enc" "it \<in> set (symbols enc)"
  shows "unat (sym_low it) < unat (sym_high it)"
    and "unat (sym_high it) \<le> unat (total_count enc)"
  using contiguous_entry [of 0 "symbols enc" "unat (total_count enc)" it] assms
  by (auto simp add: coder_model_def)

lemma coder_model_total:
  assumes "coder_model enc"
  shows "unat (total_count enc) < 2 ^ 32" and "total_count enc \<noteq> 0"
  using assms by (auto simp add: coder_model_def)

lemma coder_model_narrow:
  assumes m: "coder_model enc" and it: "it \<in> set (symbols enc)"
    and lh: "low \<le> high" and d: "renorm_step low high = None"
  shows "fst (encode_narrow (total_count enc) it low high)
           \<le> snd (encode_narrow (total_count enc) it low high)"
    and "low \<le> fst (encode_narrow (total_count enc) it low high)"
    and "snd (encode_narrow (total_count enc) it low high) \<le> high"
proof -
  have r: "unat (total_count enc) \<le> rng low high"
    using renorm_done_range [OF lh d] m by (simp add: coder_model_def)
  note n = narrow_unat [OF lh coder_model_total(1) [OF m] coder_model_entry(2) [OF m it]
      coder_model_entry(1) [OF m it] r]
  show "fst (encode_narrow (total_count enc) it low high)
           \<le> snd (encode_narrow (total_count enc) it low high)" by (rule n(3))
  show "low \<le> fst (encode_narrow (total_count enc) it low high)" by (rule n(4))
  show "snd (encode_narrow (total_count enc) it low high) \<le> high" by (rule n(5))
qed

lemma find_in_set: "find P xs = Some x \<Longrightarrow> x \<in> set xs"
  by (auto simp add: find_Some_iff)

lemma enc_visits_le:
  assumes "coder_model enc" "enc_visits enc low high"
  shows "low \<le> high"
  using assms(2)
proof (induction rule: enc_visits.induct)
  case enc_init
  show ?case by (simp add: MAX_RANGE_def)
next
  case (enc_narrow low high byte it low' high')
  have "it \<in> set (symbols enc)" using enc_narrow.hyps(3) by (rule find_in_set)
  from coder_model_narrow(1) [OF assms(1) this enc_narrow.IH enc_narrow.hyps(2)]
  show ?case using enc_narrow.hyps(5) by simp
next
  case (enc_scale low high low' high')
  from renorm_step_le(1) [OF enc_scale.IH enc_scale.hyps(2)] show ?case .
qed

lemma narrow_same: "decode_narrow t it low high = encode_narrow t it low high"
  by (simp add: decode_narrow_def encode_narrow_def)

lemma dec_visits_le:
  assumes "coder_model enc" "dec_visits enc low high v"
  shows "low \<le> high"
  using assms(2)
proof (induction rule: dec_visits.induct)
  case (dec_init v)
  show ?case by (simp add: MAX_RANGE_def)
next
  case (dec_narrow low high v it low' high')
  have "it \<in> set (symbols enc)" using dec_narrow.hyps(3) by (rule find_in_set)
  from coder_model_narrow(1) [OF assms(1) this dec_narrow.IH dec_narrow.hyps(2)]
  show ?case using dec_narrow.hyps(5) by (simp add: narrow_same)
next
  case (dec_scale low high v low' high' b)
  from renorm_step_le(1) [OF dec_scale.IH dec_scale.hyps(2)] show ?case .
qed

subsection \<open>The loops of the model stay within the visited states\<close>

lemma encode_renorm_visits:
  "enc_visits enc low high \<Longrightarrow>
     (case encode_renorm low high btf w of
        (l', h', b', w') \<Rightarrow> enc_visits enc l' h' \<and> renorm_step l' h' = None)"
proof (induction low high arbitrary: btf w rule: renorm_induct)
  case (step low high)
  show ?case
  proof (cases "renorm_step low high")
    case None
    then show ?thesis using step.prems by (simp add: encode_renorm_None)
  next
    case (Some p)
    obtain l' h' where p: "p = (l', h')" by (cases p) auto
    have s: "renorm_step low high = Some (l', h')" using Some p by simp
    have "enc_visits enc l' h'" using step.prems s by (rule enc_scale)
    from step.IH [OF s this] show ?thesis unfolding encode_renorm_Some [OF s] .
  qed
qed

lemma encode_loop_visits:
  "\<lbrakk>enc_visits enc low high; renorm_step low high = None;
    encode_loop enc data (low, high, btf, w) = Inr (l', h', b', w')\<rbrakk>
   \<Longrightarrow> enc_visits enc l' h' \<and> renorm_step l' h' = None"
proof (induction data arbitrary: low high btf w)
  case Nil
  then show ?case by simp
next
  case (Cons byte data)
  show ?case
  proof (cases "find (\<lambda>s. sym_value s = byte) (symbols enc)")
    case None
    then show ?thesis using Cons by simp
  next
    case (Some it)
    have t: "total_count enc \<noteq> 0" using Cons.prems(3) Some by (auto split: if_splits)
    obtain l1 h1 where n: "encode_narrow (total_count enc) it low high = (l1, h1)"
      by (cases "encode_narrow (total_count enc) it low high") auto
    have v1: "enc_visits enc l1 h1" using Cons.prems(1,2) Some t n by (rule enc_narrow)
    obtain l2 h2 b2 w2 where r: "encode_renorm l1 h1 btf w = (l2, h2, b2, w2)"
      by (cases "encode_renorm l1 h1 btf w") auto
    have v2: "enc_visits enc l2 h2" "renorm_step l2 h2 = None"
      using encode_renorm_visits [OF v1, of btf w] r by simp_all
    have "encode_loop enc data (l2, h2, b2, w2) = Inr (l', h', b', w')"
      using Cons.prems(3) Some t n r by simp
    from Cons.IH [OF v2 this] show ?thesis .
  qed
qed

lemma decode_renorm_visits:
  "dec_visits enc low high v \<Longrightarrow>
     (case decode_renorm low high v r of
        (l', h', v', r') \<Rightarrow> dec_visits enc l' h' v' \<and> renorm_step l' h' = None)"
proof (induction low high arbitrary: v r rule: renorm_induct)
  case (step low high)
  show ?case
  proof (cases "renorm_step low high")
    case None
    then show ?thesis using step.prems by (simp add: decode_renorm_None)
  next
    case (Some p)
    obtain l' h' where p: "p = (l', h')" by (cases p) auto
    have s: "renorm_step low high = Some (l', h')" using Some p by simp
    have "dec_visits enc l' h' (scale_value low high v (fst (readBit r)))"
      using step.prems s by (rule dec_scale)
    from step.IH [OF s this] show ?thesis unfolding decode_renorm_Some [OF s] .
  qed
qed

lemma coder_model_cum_ranges:
  assumes s: "symbols enc = cum_ranges 0 xs" and t: "total_count enc = sum_list (map snd xs)"
    and pos: "\<forall>p \<in> set xs. 0 < unat (snd p)" and ne: "xs \<noteq> []"
    and le: "sum_list (map (\<lambda>p. unat (snd p)) xs) \<le> 2 ^ 30"
  shows "coder_model enc"
proof -
  have lt: "sum_list (map (\<lambda>p. unat (snd p)) xs) < 2 ^ 64"
    using le by (rule le_less_trans) simp
  have mi: "model_inv enc" using lt s t by (rule model_inv_cum_ranges)
  have c: "contiguous 0 (symbols enc) (unat (total_count enc))"
    using mi by (simp add: model_inv_def Let_def)
  have ut: "unat (total_count enc) = sum_list (map (\<lambda>p. unat (snd p)) xs)"
    using unat_sum_list [of "map snd xs"] lt t by (simp add: comp_def)
  have "set (map sym_count (symbols enc)) = set (map snd xs)" unfolding s by simp
  then have p: "\<forall>s \<in> set (symbols enc). 0 < unat (sym_count s)"
    using pos by (metis (no_types, lifting) image_iff list.set_map)
  obtain p ps where "xs = p # ps" using ne by (cases xs) auto
  then have "0 < sum_list (map (\<lambda>p. unat (snd p)) xs)" using pos by simp
  then show ?thesis unfolding coder_model_def using c p ut le by simp
qed

lemma coder_model_buildSymbolsFromCounts:
  assumes "\<forall>p \<in> set counts. 0 < snd p" "counts \<noteq> []"
    and "sum_list (map (\<lambda>p. unat (snd p)) counts) \<le> 2 ^ 30"
  shows "coder_model (buildSymbolsFromCounts counts e)"
proof (rule coder_model_cum_ranges)
  show "symbols (buildSymbolsFromCounts counts e) = cum_ranges 0 counts"
    by (rule symbols_buildSymbolsFromCounts)
  show "total_count (buildSymbolsFromCounts counts e) = sum_list (map snd counts)"
    by (rule total_buildSymbolsFromCounts)
  show "\<forall>p \<in> set counts. 0 < unat (snd p)" using assms(1) by (simp add: word_less_nat_alt)
  show "counts \<noteq> []" by (rule assms(2))
  show "sum_list (map (\<lambda>p. unat (snd p)) counts) \<le> 2 ^ 30" by (rule assms(3))
qed

lemma coder_model_buildFrequencyTable:
  assumes ne: "data \<noteq> []" and le: "length data \<le> 2 ^ 30"
  shows "coder_model (buildFrequencyTable data e)"
proof (rule coder_model_cum_ranges)
  let ?xs = "map_items (foldl freq_incr Map.empty data)"
  have l64: "length data < 2 ^ 64" using le by (rule le_less_trans) simp
  show "symbols (buildFrequencyTable data e) = cum_ranges 0 ?xs"
    by (rule symbols_buildFrequencyTable)
  show "total_count (buildFrequencyTable data e) = sum_list (map snd ?xs)"
    by (simp add: total_buildFrequencyTable word_sum_items_tally)
  show "\<forall>p \<in> set ?xs. 0 < unat (snd p)"
  proof -
    have "0 < count_list data k" if "k \<in> set data" for k
      using that count_list_0_iff [of data k] by auto
    then show ?thesis by (auto simp add: map_items_tally unat_count [OF l64])
  qed
  have "set (map fst ?xs) = set data"
    using set_all_bytes by (auto simp add: map_items_tally comp_def)
  then show "?xs \<noteq> []" using ne by (metis list.map_disc_iff set_empty)
  show "sum_list (map (\<lambda>p. unat (snd p)) ?xs) \<le> 2 ^ 30"
    using le by (simp add: sum_items_tally [OF l64])
qed

text \<open>
  Claim C6, amended. In the encode loop, run with the model built from non-empty data of
  at most \<open>2^30\<close> bytes, and in the decode loop, run with a model rebuilt from a non-empty
  table whose counts are all positive and sum to at most \<open>2^30\<close>, \<open>low \<le> high\<close> holds at
  every point: at the start, after each narrowing and after every E1, E2 or E3
  iteration.
\<close>

theorem low_le_high_invariant:
  "(data \<noteq> [] \<and> length data \<le> 2 ^ 30 \<and> enc_visits (buildFrequencyTable data e) low high
      \<longrightarrow> low \<le> high)
   \<and> ((\<forall>p \<in> set counts. 0 < snd p) \<and> counts \<noteq> []
       \<and> sum_list (map (\<lambda>p. unat (snd p)) counts) \<le> 2 ^ 30
       \<and> dec_visits (buildSymbolsFromCounts counts e') low' high' v
      \<longrightarrow> low' \<le> high')"
  using enc_visits_le [OF coder_model_buildFrequencyTable, of data e low high]
    dec_visits_le [OF coder_model_buildSymbolsFromCounts, of counts e' low' high' v]
  by blast

theorem low_le_high_invariant_witness:
  "[0x61, 0x62 :: byte] \<noteq> [] \<and> length [0x61, 0x62 :: byte] \<le> 2 ^ 30
   \<and> enc_visits (buildFrequencyTable [0x61, 0x62] \<lparr>symbols = [], total_count = 0\<rparr>) 0 0x7FFFFFFF
   \<and> (0 :: u32) \<le> 0x7FFFFFFF
   \<and> (0 :: u64) < snd (0x61 :: byte, 1 :: u64) \<and> (0 :: u64) < snd (0x62 :: byte, 1 :: u64)
   \<and> unat (snd (0x61 :: byte, 1 :: u64)) + unat (snd (0x62 :: byte, 1 :: u64)) \<le> 2 ^ 30
   \<and> dec_visits (buildSymbolsFromCounts [(0x61, 1), (0x62, 1)] \<lparr>symbols = [], total_count = 0\<rparr>)
        0x80000000 0xFFFFFFFF 0xC0000000
   \<and> (0x80000000 :: u32) \<le> 0xFFFFFFFF"
proof -
  let ?e0 = "\<lparr>symbols = [], total_count = 0\<rparr>"
  let ?m = "buildFrequencyTable [0x61, 0x62] ?e0"
  let ?d = "buildSymbolsFromCounts [(0x61, 1), (0x62, 1)] ?e0"
  have s0: "renorm_step 0 MAX_RANGE = None" by code_simp
  have f: "find (\<lambda>s. sym_value s = 0x61) (symbols ?m)
      = Some \<lparr>sym_value = 0x61, sym_low = 0, sym_high = 1, sym_count = 1\<rparr>" by code_simp
  have t: "total_count ?m \<noteq> 0" by code_simp
  have n: "encode_narrow (total_count ?m) \<lparr>sym_value = 0x61, sym_low = 0, sym_high = 1, sym_count = 1\<rparr>
      0 MAX_RANGE = (0, 0x7FFFFFFF)" by code_simp
  have ev: "enc_visits ?m 0 0x7FFFFFFF"
    by (rule enc_narrow [OF enc_init s0 f t n])
  have f': "find (\<lambda>s. sym_value s = decodeSymbol ?d (decode_cum (total_count ?d) 0 MAX_RANGE 0xC0000000))
      (symbols ?d) = Some \<lparr>sym_value = 0x62, sym_low = 1, sym_high = 2, sym_count = 1\<rparr>" by code_simp
  have t': "total_count ?d \<noteq> 0" by code_simp
  have n': "decode_narrow (total_count ?d) \<lparr>sym_value = 0x62, sym_low = 1, sym_high = 2, sym_count = 1\<rparr>
      0 MAX_RANGE = (0x80000000, 0xFFFFFFFF)" by code_simp
  have dv: "dec_visits ?d 0x80000000 0xFFFFFFFF 0xC0000000"
    by (rule dec_narrow [OF dec_init s0 f' t' n'])
  show ?thesis
    using low_le_high_invariant [of "[0x61, 0x62]" ?e0 0 "0x7FFFFFFF" "[(0x61, 1), (0x62, 1)]" ?e0
        "0x80000000" "0xFFFFFFFF" "0xC0000000"] ev dv
    by simp
qed

text \<open>The claim as stated fails in the decode loop for a table that holds an entry with
  count 0: with the table \<open>[(1, 1), (2, 0), (2, 1)]\<close>, so \<open>total_count = 2\<close>, and a bitstream that
  starts with a 1 bit, \<^verbatim>\<open>decodeSymbol\<close> returns byte 2 from the third entry, the narrowing
  uses the second, empty one, and leaves \<open>low = 2^31 > high = 2^31 - 1\<close>.\<close>

theorem low_le_high_counterexample:
  "total_count (buildSymbolsFromCounts [(1, 1), (2, 0), (2, 1)] \<lparr>symbols = [], total_count = 0\<rparr>) = 2
   \<and> dec_visits (buildSymbolsFromCounts [(1, 1), (2, 0), (2, 1)] \<lparr>symbols = [], total_count = 0\<rparr>)
        0x80000000 0x7FFFFFFF 0x80000000
   \<and> \<not> (0x80000000 :: u32) \<le> 0x7FFFFFFF"
proof -
  let ?d = "buildSymbolsFromCounts [(1, 1), (2, 0), (2, 1)] \<lparr>symbols = [], total_count = 0\<rparr>"
  have s0: "renorm_step 0 MAX_RANGE = None" by code_simp
  have f: "find (\<lambda>s. sym_value s = decodeSymbol ?d (decode_cum (total_count ?d) 0 MAX_RANGE 0x80000000))
      (symbols ?d) = Some \<lparr>sym_value = 2, sym_low = 1, sym_high = 1, sym_count = 0\<rparr>" by code_simp
  have t: "total_count ?d \<noteq> 0" by code_simp
  have n: "decode_narrow (total_count ?d) \<lparr>sym_value = 2, sym_low = 1, sym_high = 1, sym_count = 0\<rparr>
      0 MAX_RANGE = (0x80000000, 0x7FFFFFFF)" by code_simp
  have dv: "dec_visits ?d 0x80000000 0x7FFFFFFF 0x80000000"
    by (rule dec_narrow [OF dec_init s0 f t n])
  have t2: "total_count ?d = 2" by code_simp
  show ?thesis using dv t2 by simp
qed

section \<open>The bits of a writer\<close>

text \<open>\<open>writer_bits w\<close>: all bits written to \<open>w\<close> so far, the complete bytes first, then the
  bits held in \<open>current\<close>.\<close>

definition current_bits :: "BitWriter \<Rightarrow> bool list" where
  "current_bits w = map (\<lambda>i. bit (w_current w) (w_bits_filled w - 1 - i)) [0..<w_bits_filled w]"

definition writer_bits :: "BitWriter \<Rightarrow> bool list" where
  "writer_bits w = bits_of_bytes (w_bytes w) @ current_bits w"

lemma bits_of_bytes_append: "bits_of_bytes (xs @ ys) = bits_of_bytes xs @ bits_of_bytes ys"
  by (simp add: bits_of_bytes_def)

lemma bits_of_bytes_single: "bits_of_bytes [b] = bits_of_byte b"
  by (simp add: bits_of_bytes_def)

lemma bit_shl_or_0: "bit (push_bit 1 (c :: byte) OR of_bool b) 0 = b"
  by (cases b) (simp_all add: bit_0 even_or_iff)

lemma bit_shl_or_Suc: "n < 7 \<Longrightarrow> bit (push_bit 1 (c :: byte) OR of_bool b) (Suc n) = bit c n"
  unfolding bit_or_iff bit_shl1 by (cases b) (simp_all add: bit_Suc)

lemma writer_bits_new: "writer_bits new_writer = []"
  by (simp add: writer_bits_def new_writer_def current_bits_def bits_of_bytes_def)

lemma writeBit_bits:
  assumes "w_bits_filled w < 8"
  shows "writer_bits (writeBit b w) = writer_bits w @ [b]"
    and "w_bits_filled (writeBit b w) < 8"
proof -
  let ?c = "push_bit 1 (w_current w) OR of_bool b"
  let ?k = "w_bits_filled w"
  have nth: "map (\<lambda>i. bit ?c (?k - i)) [0..<Suc ?k] = current_bits w @ [b]"
  proof -
    have "bit ?c (?k - i) = bit (w_current w) (?k - 1 - i)" if "i < ?k" for i
    proof -
      have "?k - i = Suc (?k - 1 - i)" "?k - 1 - i < 7" using that assms by simp_all
      then show ?thesis using bit_shl_or_Suc [of "?k - 1 - i" "w_current w" b] by simp
    qed
    then have "map (\<lambda>i. bit ?c (?k - i)) [0..<?k] = current_bits w"
      unfolding current_bits_def by (intro map_cong) simp_all
    then show ?thesis using bit_shl_or_0 [of "w_current w" b] by simp
  qed
  show "w_bits_filled (writeBit b w) < 8"
    using assms by (simp add: writeBit_def Let_def)
  show "writer_bits (writeBit b w) = writer_bits w @ [b]"
  proof (cases "?k + 1 = 8")
    case True
    then have k: "?k = 7" by simp
    have "bits_of_byte ?c = current_bits w @ [b]"
      using nth unfolding bits_of_byte_def k by simp
    then show ?thesis using True
      by (simp add: writeBit_def Let_def writer_bits_def bits_of_bytes_append bits_of_bytes_single
          current_bits_def)
  next
    case False
    then show ?thesis using nth
      by (simp add: writeBit_def Let_def writer_bits_def current_bits_def del: upt_Suc)
  qed
qed

lemma write_bits_bits:
  "w_bits_filled w < 8 \<Longrightarrow>
     writer_bits (write_bits bs w) = writer_bits w @ bs \<and> w_bits_filled (write_bits bs w) < 8"
proof (induction bs arbitrary: w)
  case Nil
  then show ?case by (simp add: write_bits_def)
next
  case (Cons b bs)
  from Cons.IH [OF writeBit_bits(2) [OF Cons.prems, of b]] writeBit_bits(1) [OF Cons.prems, of b]
  show ?case by (simp add: write_bits_Cons)
qed

lemma stream_bit_pad: "stream_bit (bs @ replicate k False) = stream_bit bs"
  by (rule ext) (auto simp add: stream_bit_def nth_append)

text \<open>After \<^verbatim>\<open>flush\<close> the bytes hold the written bits, padded with zeros.\<close>

lemma flush_bits:
  assumes "w_bits_filled w < 8"
  shows "stream_bit (bits_of_bytes (w_bytes (flush w))) = stream_bit (writer_bits w)"
proof (cases "w_bits_filled w > 0")
  case False
  then show ?thesis by (simp add: flush_def writer_bits_def current_bits_def)
next
  case True
  let ?k = "w_bits_filled w"
  let ?c = "push_bit (8 - ?k) (w_current w)"
  have "bits_of_byte ?c = current_bits w @ replicate (8 - ?k) False"
  proof (rule nth_equalityI)
    show "length (bits_of_byte ?c) = length (current_bits w @ replicate (8 - ?k) False)"
      using assms by (simp add: current_bits_def)
  next
    fix i
    assume "i < length (bits_of_byte ?c)"
    then have i: "i < 8" by simp
    show "bits_of_byte ?c ! i = (current_bits w @ replicate (8 - ?k) False) ! i"
    proof (cases "i < ?k")
      case True
      then have "7 - i - (8 - ?k) = ?k - 1 - i" "8 - ?k \<le> 7 - i" using assms by simp_all
      then show ?thesis using True i
        by (auto simp add: nth_bits_of_byte nth_append current_bits_def bit_push_bit_iff)
    next
      case False
      then have "\<not> 8 - ?k \<le> 7 - i" using i by simp
      then show ?thesis using False i
        by (simp add: nth_bits_of_byte nth_append current_bits_def bit_push_bit_iff)
    qed
  qed
  then have "bits_of_bytes (w_bytes (flush w)) = writer_bits w @ replicate (8 - ?k) False"
    using True by (simp add: flush_def writer_bits_def bits_of_bytes_append bits_of_bytes_single)
  then show ?thesis by (simp add: stream_bit_pad)
qed

section \<open>The bits that the encoder writes\<close>

text \<open>\<open>renorm_out low high btf\<close>: the state after the encoder's renormalisation loop and the
  bits that the loop writes.\<close>

function renorm_out :: "u32 \<Rightarrow> u32 \<Rightarrow> u32 \<Rightarrow> u32 \<times> u32 \<times> u32 \<times> bool list" where
  "renorm_out low high btf =
     (case renorm_step low high of
        None \<Rightarrow> (low, high, btf, [])
      | Some (l', h') \<Rightarrow>
          (case renorm_out l' h' (scale_follow low high btf) of
             (l2, h2, b2, bs) \<Rightarrow> (l2, h2, b2, scale_bits low high btf @ bs)))"
  by pat_completeness auto
termination
proof (relation "inv_image renorm_rel (\<lambda>(l, h, b). (l, h))")
  show "wf (inv_image renorm_rel (\<lambda>(l, h, b). (l, h)))"
    by (rule wf_inv_image) (rule wf_renorm_rel)
qed (auto simp add: renorm_step_rel)

declare renorm_out.simps [simp del]

lemma renorm_out_None:
  "renorm_step low high = None \<Longrightarrow> renorm_out low high btf = (low, high, btf, [])"
  by (subst renorm_out.simps) simp

lemma renorm_out_Some:
  "renorm_step low high = Some (l', h') \<Longrightarrow>
     renorm_out low high btf =
       (case renorm_out l' h' (scale_follow low high btf) of
          (l2, h2, b2, bs) \<Rightarrow> (l2, h2, b2, scale_bits low high btf @ bs))"
  by (subst renorm_out.simps) simp

lemma encode_renorm_out:
  "encode_renorm low high btf w =
     (case renorm_out low high btf of (l2, h2, b2, bs) \<Rightarrow> (l2, h2, b2, write_bits bs w))"
proof (induction low high arbitrary: btf w rule: renorm_induct)
  case (step low high)
  show ?case
  proof (cases "renorm_step low high")
    case None
    then show ?thesis by (simp add: encode_renorm_None renorm_out_None write_bits_def)
  next
    case (Some p)
    obtain l' h' where s: "renorm_step low high = Some (l', h')" using Some by (cases p) auto
    show ?thesis
      unfolding encode_renorm_Some [OF s] renorm_out_Some [OF s] step [OF s]
      by (simp add: write_bits_append split: prod.split)
  qed
qed

text \<open>The bits written after the loop over the data, before \<^verbatim>\<open>flush\<close>.\<close>

definition finish_bits :: "u32 \<Rightarrow> u32 \<Rightarrow> bool list" where
  "finish_bits low btf =
     (if low < FIRST_QTR then False # replicate (unat (btf + 1)) True
      else True # replicate (unat (btf + 1)) False)"

text \<open>\<open>enc_out enc data low high btf\<close>: all bits that \<^verbatim>\<open>encodeData\<close> writes from the head of
  its loop in the state \<open>(low, high, btf)\<close> with \<open>data\<close> still to encode.\<close>

fun enc_out :: "ArithmeticEncoder \<Rightarrow> byte list \<Rightarrow> u32 \<Rightarrow> u32 \<Rightarrow> u32 \<Rightarrow> bool list" where
  "enc_out enc [] low high btf = finish_bits low btf"
| "enc_out enc (x # xs) low high btf =
     (case find (\<lambda>s. sym_value s = x) (symbols enc) of
        None \<Rightarrow> enc_out enc xs low high btf
      | Some it \<Rightarrow>
          (case encode_narrow (total_count enc) it low high of
             (l1, h1) \<Rightarrow>
               (case renorm_out l1 h1 btf of
                  (l2, h2, b2, bs) \<Rightarrow> bs @ enc_out enc xs l2 h2 b2)))"

text \<open>\<open>ren_out\<close>: the same from the entry of the renormalisation loop.\<close>

definition ren_out :: "ArithmeticEncoder \<Rightarrow> byte list \<Rightarrow> u32 \<Rightarrow> u32 \<Rightarrow> u32 \<Rightarrow> bool list" where
  "ren_out enc xs low high btf =
     (case renorm_out low high btf of (l2, h2, b2, bs) \<Rightarrow> bs @ enc_out enc xs l2 h2 b2)"

lemma ren_out_None:
  "renorm_step low high = None \<Longrightarrow> ren_out enc xs low high btf = enc_out enc xs low high btf"
  by (simp add: ren_out_def renorm_out_None)

lemma ren_out_Some:
  "renorm_step low high = Some (l', h') \<Longrightarrow>
     ren_out enc xs low high btf
       = scale_bits low high btf @ ren_out enc xs l' h' (scale_follow low high btf)"
  by (simp add: ren_out_def renorm_out_Some split: prod.split)

lemma enc_out_found:
  "find (\<lambda>s. sym_value s = x) (symbols enc) = Some it \<Longrightarrow>
     enc_out enc (x # xs) low high btf
       = ren_out enc xs (fst (encode_narrow (total_count enc) it low high))
           (snd (encode_narrow (total_count enc) it low high)) btf"
  by (simp add: ren_out_def split: prod.split)

lemma encode_finish_bits:
  "encode_finish (low, high, btf, w) = flush (write_bits (finish_bits low btf) w)"
  by (simp add: encode_finish_def finish_bits_def write_follow_bits write_bits_Cons Let_def)

lemma encodeData_out:
  assumes "total_count enc \<noteq> 0 \<or> data = []"
  shows "map_sum id encode_finish (encode_loop enc data (low, high, btf, w))
           = Inr (flush (write_bits (enc_out enc data low high btf) w))"
  using assms
proof (induction data arbitrary: low high btf w)
  case Nil
  show ?case by (simp add: encode_finish_bits)
next
  case (Cons x xs)
  then have t: "total_count enc \<noteq> 0" by simp
  show ?case
  proof (cases "find (\<lambda>s. sym_value s = x) (symbols enc)")
    case None
    then show ?thesis using Cons.IH t by simp
  next
    case (Some it)
    obtain l1 h1 where n: "encode_narrow (total_count enc) it low high = (l1, h1)"
      by (cases "encode_narrow (total_count enc) it low high") auto
    obtain l2 h2 b2 bs where r: "renorm_out l1 h1 btf = (l2, h2, b2, bs)"
      by (cases "renorm_out l1 h1 btf") auto
    show ?thesis using Some t n r Cons.IH [of l2 h2 b2 "write_bits bs w"]
      by (simp add: encode_renorm_out write_bits_append)
  qed
qed

lemma encodeData_bits:
  assumes "total_count enc \<noteq> 0 \<or> data = []"
  shows "encodeData enc data w = Inr (flush (write_bits (enc_out enc data 0 MAX_RANGE 0) w))"
  using encodeData_out [OF assms, of 0 MAX_RANGE 0 w]
  by (cases "encode_loop enc data (0, MAX_RANGE, 0, w)") (simp_all add: encodeData_def)

section \<open>Deferred bits\<close>

text \<open>\<open>ins n bs\<close> puts \<open>n\<close> copies of the opposite of the first bit after the first bit.\<close>

definition ins :: "nat \<Rightarrow> bool list \<Rightarrow> bool list" where
  "ins n bs = (case bs of [] \<Rightarrow> [] | b # r \<Rightarrow> b # replicate n (\<not> b) @ r)"

lemma ins_Cons: "ins n (b # r) = b # replicate n (\<not> b) @ r"
  by (simp add: ins_def)

lemma ins_0 [simp]: "ins 0 bs = bs"
  by (simp add: ins_def split: list.split)

lemma ins_ins: "ins n (ins (Suc 0) bs) = ins (Suc n) bs"
  by (cases bs) (simp_all add: ins_def replicate_app_Cons_same)

lemma ins_nonempty: "bs \<noteq> [] \<Longrightarrow> ins n bs \<noteq> []"
  by (cases bs) (simp_all add: ins_def)

lemma dbl_rank_le: "dbl_rank x \<le> 32"
  unfolding dbl_rank_def by (rule Least_le) (simp add: push_bit_word_beyond)

lemma renorm_step_diff:
  assumes "renorm_step low high = Some (l', h')"
  shows "l' - h' - 1 = 2 * (low - high - 1)"
proof -
  consider (a) "high < HALF" | (b) "\<not> high < HALF" "HALF \<le> low"
    | (c) "\<not> high < HALF" "\<not> HALF \<le> low" by blast
  then show ?thesis
  proof cases
    case a
    then have "l' = push_bit 1 (low - 0)" "h' = push_bit 1 (high - 0) OR 1"
      using assms by (simp_all add: renorm_step_def)
    then show ?thesis using diff_step [of low 0 high] by simp
  next
    case b
    then have "l' = push_bit 1 (low - HALF)" "h' = push_bit 1 (high - HALF) OR 1"
      using assms by (simp_all add: renorm_step_def)
    then show ?thesis using diff_step [of low HALF high] by simp
  next
    case c
    then have "l' = push_bit 1 (low - FIRST_QTR)" "h' = push_bit 1 (high - FIRST_QTR) OR 1"
      using assms by (simp_all add: renorm_step_def split: if_splits)
    then show ?thesis using diff_step [of low FIRST_QTR high] by simp
  qed
qed

lemma renorm_step_rank:
  assumes lh: "low \<le> high" and s: "renorm_step low high = Some (l', h')"
  shows "dbl_rank (l' - h' - 1) < dbl_rank (low - high - 1)"
proof -
  have r: "rng l' h' = 2 * rng low high" using lh s by (rule renorm_step_le(2))
  have "rng l' h' \<le> 4294967296" by (rule rng_bounds(2))
  then have small: "unat high - unat low + 1 \<le> 2147483648" using r lh by (simp add: rng_le)
  have ule: "unat low \<le> unat high" using lh by (simp add: word_le_nat_alt)
  have nz: "low - high - 1 \<noteq> 0"
  proof
    assume "low - high - 1 = 0"
    then have e: "low = high + 1" by (simp add: algebra_simps)
    have "unat low = (unat high + 1) mod 2 ^ 32" unfolding e by (simp add: unat_word_ariths)
    moreover have "unat high < 4294967296" by (rule unat_lt_32)
    ultimately show False using ule small by (cases "unat high + 1 = 2 ^ 32") simp_all
  qed
  show ?thesis unfolding renorm_step_diff [OF s] using nz by (rule dbl_rank_double)
qed

lemma unat_succ: "unat (b :: u32) + 1 < 2 ^ 32 \<Longrightarrow> unat (b + 1) = unat b + 1"
proof -
  assume "unat b + 1 < 2 ^ 32"
  then have "unat b + unat (1 :: u32) < 2 ^ LENGTH(32)" by simp
  then have "unat (b + 1) = unat b + unat (1 :: u32)" by (simp only: unat_add_lem)
  then show ?thesis by simp
qed

lemma finish_bits_ins:
  assumes "unat btf + 1 < 2 ^ 32"
  shows "finish_bits low btf = ins (unat btf) (finish_bits low 0)" and "finish_bits low 0 \<noteq> []"
  using unat_succ [OF assms]
  by (simp_all add: finish_bits_def ins_Cons replicate_append_same)

text \<open>The counter of deferred bits only postpones output: as long as it does not wrap,
  the bits written from a state with counter \<open>btf\<close> are those written with counter 0,
  with \<open>btf\<close> opposite bits after the first.\<close>

lemma ren_out_ins_step:
  assumes head: "\<And>l h b. \<lbrakk>l \<le> h; renorm_step l h = None; unat b + 32 * length xs + 1 < 2 ^ 32\<rbrakk>
      \<Longrightarrow> enc_out enc xs l h b = ins (unat b) (enc_out enc xs l h 0) \<and> enc_out enc xs l h 0 \<noteq> []"
  shows "\<lbrakk>low \<le> high; unat btf + dbl_rank (low - high - 1) + 32 * length xs + 1 < 2 ^ 32\<rbrakk>
     \<Longrightarrow> ren_out enc xs low high btf = ins (unat btf) (ren_out enc xs low high 0)
         \<and> ren_out enc xs low high 0 \<noteq> []"
proof (induction low high arbitrary: btf rule: renorm_induct)
  case (step low high)
  show ?case
  proof (cases "renorm_step low high")
    case None
    have "unat btf + 32 * length xs + 1 < 2 ^ 32" using step.prems(2) by simp
    from head [OF step.prems(1) None this] show ?thesis by (simp add: ren_out_None [OF None])
  next
    case (Some p)
    obtain l' h' where s: "renorm_step low high = Some (l', h')" using Some by (cases p) auto
    have lh': "l' \<le> h'" using step.prems(1) s by (rule renorm_step_le(1))
    have rk: "dbl_rank (l' - h' - 1) < dbl_rank (low - high - 1)"
      using step.prems(1) s by (rule renorm_step_rank)
    show ?thesis
    proof (cases "high < HALF \<or> HALF \<le> low")
      case True
      then show ?thesis unfolding ren_out_Some [OF s]
        by (auto simp add: scale_bits_def scale_follow_def ins_Cons)
    next
      case False
      then have sb: "scale_bits low high btf = []" "scale_bits low high 0 = []"
        by (auto simp add: scale_bits_def)
      have sf: "scale_follow low high btf = btf + 1" "scale_follow low high 0 = 1"
        using False by (simp_all add: scale_follow_def)
      have u: "unat (btf + 1) = unat btf + 1" using step.prems(2) by (intro unat_succ) simp
      have b1: "unat (btf + 1) + dbl_rank (l' - h' - 1) + 32 * length xs + 1 < 2 ^ 32"
        using step.prems(2) rk u by simp
      have b2: "unat (1 :: u32) + dbl_rank (l' - h' - 1) + 32 * length xs + 1 < 2 ^ 32"
        using step.prems(2) rk by simp
      from step.IH [OF s lh' b1] step.IH [OF s lh' b2]
      show ?thesis unfolding ren_out_Some [OF s] sb sf u by (simp add: ins_ins ins_nonempty)
    qed
  qed
qed

lemma enc_out_ins:
  assumes m: "coder_model enc"
  shows "\<lbrakk>low \<le> high; renorm_step low high = None; unat btf + 32 * length xs + 1 < 2 ^ 32\<rbrakk>
     \<Longrightarrow> enc_out enc xs low high btf = ins (unat btf) (enc_out enc xs low high 0)
         \<and> enc_out enc xs low high 0 \<noteq> []"
proof (induction xs arbitrary: low high btf)
  case Nil
  have "unat btf + 1 < 2 ^ 32" using Nil.prems(3) by simp
  from finish_bits_ins [OF this] show ?case by simp
next
  case (Cons x xs)
  show ?case
  proof (cases "find (\<lambda>s. sym_value s = x) (symbols enc)")
    case None
    have "unat btf + 32 * length xs + 1 < 2 ^ 32" using Cons.prems(3) by simp
    from Cons.IH [OF Cons.prems(1,2) this] show ?thesis using None by simp
  next
    case (Some it)
    let ?l = "fst (encode_narrow (total_count enc) it low high)"
    let ?h = "snd (encode_narrow (total_count enc) it low high)"
    have it: "it \<in> set (symbols enc)" using Some by (rule find_in_set)
    have lh: "?l \<le> ?h" using m it Cons.prems(1,2) by (rule coder_model_narrow(1))
    have "unat btf + dbl_rank (?l - ?h - 1) + 32 * length xs + 1 < 2 ^ 32"
      using Cons.prems(3) dbl_rank_le [of "?l - ?h - 1"] by simp
    from ren_out_ins_step [of xs enc, OF Cons.IH lh this]
    show ?thesis unfolding enc_out_found [OF Some] by simp
  qed
qed

lemma ren_out_ins:
  assumes "coder_model enc" "low \<le> high"
    and "unat btf + dbl_rank (low - high - 1) + 32 * length xs + 1 < 2 ^ 32"
  shows "ren_out enc xs low high btf = ins (unat btf) (ren_out enc xs low high 0)"
    and "ren_out enc xs low high 0 \<noteq> []"
  using ren_out_ins_step [of xs enc low high btf, OF enc_out_ins [OF assms(1)] assms(2,3)]
  by simp_all

section \<open>The value of a bit stream\<close>

text \<open>\<open>sval n f\<close>: the first \<open>n\<close> bits of the stream \<open>f\<close> as a number, first bit most
  significant. \<open>win bs\<close>: the first 32 bits of the list \<open>bs\<close> continued by zeros.\<close>

fun sval :: "nat \<Rightarrow> (nat \<Rightarrow> bool) \<Rightarrow> nat" where
  "sval 0 f = 0"
| "sval (Suc n) f = 2 * sval n f + of_bool (f n)"

definition win :: "bool list \<Rightarrow> nat" where
  "win bs = sval 32 (stream_bit bs)"

lemma sval_less: "sval n f < 2 ^ n"
  by (induction n) (auto simp add: of_bool_def)

lemma sval_shift: "sval (Suc n) f = of_bool (f 0) * 2 ^ n + sval n (\<lambda>i. f (Suc i))"
  by (induction n) (simp_all add: algebra_simps)

lemma stream_bit_Cons_0 [simp]: "stream_bit (b # bs) 0 = b"
  by (simp add: stream_bit_def)

lemma stream_bit_Cons_Suc [simp]: "stream_bit (b # bs) (Suc i) = stream_bit bs i"
  by (simp add: stream_bit_def)

lemma sval_Cons: "sval (Suc n) (stream_bit (b # bs)) = of_bool b * 2 ^ n + sval n (stream_bit bs)"
  by (simp only: sval_shift stream_bit_Cons_0 stream_bit_Cons_Suc)

lemma sval_div2: "sval n f = sval (Suc n) f div 2"
  by simp

lemma win_Cons: "win (b # bs) = of_bool b * 2147483648 + win bs div 2"
proof -
  have "win (b # bs) = of_bool b * 2 ^ 31 + sval 31 (stream_bit bs)"
    unfolding win_def using sval_Cons [of 31 b bs] by simp
  moreover have "sval 31 (stream_bit bs) = win bs div 2"
    unfolding win_def using sval_div2 [of 31 "stream_bit bs"] by simp
  ultimately show ?thesis by simp
qed

lemma win_ins1:
  assumes "bs \<noteq> []"
  shows "win (ins (Suc 0) bs) = 1073741824 + win bs div 2"
proof -
  obtain b r where bs: "bs = b # r" using assms by (cases bs) auto
  have 1: "win (b # r) = of_bool b * 2 ^ 31 + sval 31 (stream_bit r)"
    unfolding win_def using sval_Cons [of 31 b r] by simp
  have 2: "sval 31 (stream_bit r) div 2 = sval 30 (stream_bit r)"
    using sval_div2 [of 30 "stream_bit r"] by simp
  have "win (b # (\<not> b) # r) = of_bool b * 2 ^ 31 + sval 31 (stream_bit ((\<not> b) # r))"
    unfolding win_def using sval_Cons [of 31 b "(\<not> b) # r"] by simp
  also have "sval 31 (stream_bit ((\<not> b) # r)) = of_bool (\<not> b) * 2 ^ 30 + sval 30 (stream_bit r)"
    using sval_Cons [of 30 "\<not> b" r] by simp
  finally have 3: "win (b # (\<not> b) # r)
      = of_bool b * 2 ^ 31 + (of_bool (\<not> b) * 2 ^ 30 + sval 30 (stream_bit r))" .
  show ?thesis unfolding bs ins_Cons using 1 2 3 by (cases b) simp_all
qed

lemma sval_zero: "(\<And>i. \<not> f i) \<Longrightarrow> sval n f = 0"
  by (induction n) simp_all

lemma win_Nil: "win [] = 0"
  unfolding win_def by (rule sval_zero) (simp add: stream_bit_def)

lemma win_finish: "win [False, True] = 1073741824" "win [True, False] = 2147483648"
  by (simp_all add: win_Cons win_Nil)

section \<open>The written bits stay inside the interval\<close>

lemma scale_E1:
  assumes "unat high < 2147483648"
  shows "scale_bits low high 0 = [False]" "scale_follow low high 0 = 0" "high < HALF"
  using assms by (simp_all add: scale_bits_def scale_follow_def word_less_nat_alt unat_HALF)

lemma scale_E2:
  assumes "low \<le> high" "2147483648 \<le> unat low"
  shows "scale_bits low high 0 = [True]" "scale_follow low high 0 = 0"
    "\<not> high < HALF" "HALF \<le> low"
proof -
  have l: "HALF \<le> low" using assms(2) by (simp add: word_le_nat_alt unat_HALF)
  then have h: "\<not> high < HALF" using assms(1) by auto
  show "scale_bits low high 0 = [True]" "scale_follow low high 0 = 0"
    "\<not> high < HALF" "HALF \<le> low"
    using l h by (simp_all add: scale_bits_def scale_follow_def)
qed

lemma scale_E3:
  assumes "unat low < 2147483648" "2147483648 \<le> unat high"
  shows "scale_bits low high btf = []" "scale_follow low high btf = btf + 1"
    "\<not> high < HALF" "\<not> HALF \<le> low"
proof -
  have l: "\<not> HALF \<le> low" using assms(1) by (simp add: word_le_nat_alt unat_HALF)
  have h: "\<not> high < HALF" using assms(2) by (simp add: word_less_nat_alt unat_HALF)
  show "scale_bits low high btf = []" "scale_follow low high btf = btf + 1"
    "\<not> high < HALF" "\<not> HALF \<le> low"
    using l h by (simp_all add: scale_bits_def scale_follow_def)
qed

lemma ren_out_win_step:
  assumes m: "coder_model enc"
    and head: "\<And>l h. \<lbrakk>l \<le> h; renorm_step l h = None\<rbrakk>
      \<Longrightarrow> unat l \<le> win (enc_out enc xs l h 0) \<and> win (enc_out enc xs l h 0) \<le> unat h"
    and len: "32 * length xs + 33 < 2 ^ 32"
  shows "low \<le> high
     \<Longrightarrow> unat low \<le> win (ren_out enc xs low high 0) \<and> win (ren_out enc xs low high 0) \<le> unat high"
proof (induction low high rule: renorm_induct)
  case (step low high)
  show ?case using step.prems
  proof (cases rule: renorm_step_cases)
    case (E1 l' h')
    have lh': "l' \<le> h'" using step.prems E1(2) by (rule renorm_step_le(1))
    from step.IH [OF E1(2) lh'] E1(3,4)
    show ?thesis unfolding ren_out_Some [OF E1(2)] scale_E1 [OF E1(1)]
      by (simp add: win_Cons, arith)
  next
    case (E2 l' h')
    have lh': "l' \<le> h'" using step.prems E2(2) by (rule renorm_step_le(1))
    have ule: "unat low \<le> unat high" using step.prems by (simp add: word_le_nat_alt)
    from step.IH [OF E2(2) lh'] E2(1,3,4) ule
    show ?thesis unfolding ren_out_Some [OF E2(2)] scale_E2 [OF step.prems E2(1)]
      by (simp add: win_Cons, arith)
  next
    case (E3 l' h')
    have lh': "l' \<le> h'" using step.prems E3(5) by (rule renorm_step_le(1))
    have rk: "dbl_rank (l' - h' - 1) < dbl_rank (low - high - 1)"
      using step.prems E3(5) by (rule renorm_step_rank)
    have b: "unat (1 :: u32) + dbl_rank (l' - h' - 1) + 32 * length xs + 1 < 2 ^ 32"
      using rk dbl_rank_le [of "low - high - 1"] len by simp
    note i = ren_out_ins [OF m lh' b]
    have e: "ren_out enc xs low high 0 = ins (Suc 0) (ren_out enc xs l' h' 0)"
      unfolding ren_out_Some [OF E3(5)] scale_E3 [OF E3(2,3)] using i(1) by simp
    from step.IH [OF E3(5) lh'] E3(1,2,3,4,6,7)
    show ?thesis unfolding e win_ins1 [OF i(2)] by (simp, arith)
  next
    case Exit
    from head [OF step.prems Exit(1)] show ?thesis by (simp add: ren_out_None [OF Exit(1)])
  qed
qed

lemma enc_out_win:
  assumes m: "coder_model enc"
  shows "\<lbrakk>low \<le> high; renorm_step low high = None; 32 * length xs + 1 < 2 ^ 32\<rbrakk>
     \<Longrightarrow> unat low \<le> win (enc_out enc xs low high 0) \<and> win (enc_out enc xs low high 0) \<le> unat high"
proof (induction xs arbitrary: low high)
  case Nil
  show ?case using Nil.prems(1)
  proof (cases rule: renorm_step_cases)
    case (E1 l' h')
    then show ?thesis using Nil.prems(2) by simp
  next
    case (E2 l' h')
    then show ?thesis using Nil.prems(2) by simp
  next
    case (E3 l' h')
    then show ?thesis using Nil.prems(2) by simp
  next
    case Exit
    show ?thesis
    proof (cases "low < FIRST_QTR")
      case True
      then have "unat low < 1073741824" by (simp add: word_less_nat_alt unat_FIRST_QTR)
      then show ?thesis using True Exit by (simp add: finish_bits_def win_finish)
    next
      case False
      then show ?thesis using Exit by (simp add: finish_bits_def win_finish)
    qed
  qed
next
  case (Cons x xs)
  have len: "32 * length xs + 33 < 2 ^ 32" using Cons.prems(3) by simp
  then have len1: "32 * length xs + 1 < 2 ^ 32" by simp
  show ?case
  proof (cases "find (\<lambda>s. sym_value s = x) (symbols enc)")
    case None
    from Cons.IH [OF Cons.prems(1,2) len1] show ?thesis using None by simp
  next
    case (Some it)
    let ?l = "fst (encode_narrow (total_count enc) it low high)"
    let ?h = "snd (encode_narrow (total_count enc) it low high)"
    have it: "it \<in> set (symbols enc)" using Some by (rule find_in_set)
    note n = coder_model_narrow [OF m it Cons.prems(1,2)]
    have head: "\<And>l h. \<lbrakk>l \<le> h; renorm_step l h = None\<rbrakk>
      \<Longrightarrow> unat l \<le> win (enc_out enc xs l h 0) \<and> win (enc_out enc xs l h 0) \<le> unat h"
      using Cons.IH len1 by blast
    from ren_out_win_step [OF m head len n(1)] n(2,3)
    show ?thesis unfolding enc_out_found [OF Some] by (simp add: word_le_nat_alt)
  qed
qed

lemma ren_out_win:
  assumes "coder_model enc" "low \<le> high" "32 * length xs + 33 < 2 ^ 32"
  shows "unat low \<le> win (ren_out enc xs low high 0)"
    and "win (ren_out enc xs low high 0) \<le> unat high"
proof -
  have len1: "32 * length xs + 1 < 2 ^ 32" using assms(3) by simp
  have head: "\<And>l h. \<lbrakk>l \<le> h; renorm_step l h = None\<rbrakk>
      \<Longrightarrow> unat l \<le> win (enc_out enc xs l h 0) \<and> win (enc_out enc xs l h 0) \<le> unat h"
    using enc_out_win [OF assms(1) _ _ len1] by blast
  from ren_out_win_step [OF assms(1) head assms(3) assms(2)]
  show "unat low \<le> win (ren_out enc xs low high 0)"
    and "win (ren_out enc xs low high 0) \<le> unat high" by simp_all
qed

section \<open>The decoder follows the encoder\<close>

text \<open>\<open>dec_inv v r bs\<close>: \<open>value\<close> holds the first 32 bits of \<open>bs\<close> (continued by zeros) and the
  reader yields the bits after them.\<close>

definition dec_inv :: "u32 \<Rightarrow> BitReader \<Rightarrow> bool list \<Rightarrow> bool" where
  "dec_inv v r bs =
     (unat v = win bs \<and> (\<forall>i. reader_stream r i = stream_bit bs (32 + i)) \<and> r_bits_left r \<le> 8)"

lemma unat_dbl_bit:
  assumes "unat x < 2147483648"
  shows "unat (push_bit 1 (x :: u32) OR of_bool b) = 2 * unat x + of_bool b"
proof (cases b)
  case True
  then show ?thesis using unat_dbl1 [OF assms] by simp
next
  case False
  then show ?thesis using unat_dbl [OF assms] by simp
qed

lemma read_value_stream:
  "\<lbrakk>r_bits_left r \<le> 8; unat v < 2 ^ k; k + n \<le> 32\<rbrakk> \<Longrightarrow>
     unat (fst (read_value n v r)) = unat v * 2 ^ n + sval n (reader_stream r)
     \<and> (\<forall>i. reader_stream (snd (read_value n v r)) i = reader_stream r (n + i))
     \<and> r_bits_left (snd (read_value n v r)) \<le> 8"
proof (induction n arbitrary: v r k)
  case 0
  then show ?case by simp
next
  case (Suc n)
  obtain b r' where rb: "readBit r = (b, r')" by (cases "readBit r")
  have b: "b = reader_stream r 0" and s: "\<And>i. reader_stream r' i = reader_stream r (Suc i)"
    and w: "r_bits_left r' \<le> 8"
    using readBit_stream [OF Suc.prems(1)] rb by simp_all
  have "(2::nat) ^ k \<le> 2 ^ 31" using Suc.prems(3) by (intro power_increasing) simp_all
  then have v31: "unat v < 2147483648" using Suc.prems(2) by simp
  let ?v = "push_bit 1 v OR of_bool b"
  have uv: "unat ?v = 2 * unat v + of_bool b" using v31 by (rule unat_dbl_bit)
  have "unat ?v < 2 * 2 ^ k" using uv Suc.prems(2) by (cases b) simp_all
  then have vk: "unat ?v < 2 ^ Suc k" by simp
  have kn: "Suc k + n \<le> 32" using Suc.prems(3) by simp
  from Suc.IH [OF w vk kn]
  have ih: "unat (fst (read_value n ?v r')) = unat ?v * 2 ^ n + sval n (reader_stream r')"
    "\<And>i. reader_stream (snd (read_value n ?v r')) i = reader_stream r' (n + i)"
    "r_bits_left (snd (read_value n ?v r')) \<le> 8" by simp_all
  have fe: "(\<lambda>i. reader_stream r (Suc i)) = reader_stream r'" by (rule ext) (simp add: s)
  have sh: "sval (Suc n) (reader_stream r) = of_bool b * 2 ^ n + sval n (reader_stream r')"
    unfolding sval_shift b fe ..
  have e: "read_value (Suc n) v r = read_value n ?v r'" using rb by simp
  show ?case unfolding e sh using ih s uv by (simp add: algebra_simps)
qed

lemma read_value_inv:
  "dec_inv (fst (read_value 32 0 (new_reader bs))) (snd (read_value 32 0 (new_reader bs)))
     (bits_of_bytes bs)"
proof -
  have w: "r_bits_left (new_reader bs) \<le> 8" by (simp add: new_reader_def)
  have v: "unat (0 :: u32) < 2 ^ 0" by simp
  from read_value_stream [OF w v, of 32]
  show ?thesis by (simp add: dec_inv_def win_def new_reader_stream)
qed

lemma dec_inv_stream_eq:
  "dec_inv v r bs \<Longrightarrow> stream_bit bs = stream_bit bs' \<Longrightarrow> dec_inv v r bs'"
  by (simp add: dec_inv_def win_def)

lemma stream_bit_Cons_num [simp]:
  "stream_bit (b # bs) (numeral n + i) = stream_bit bs (pred_numeral n + i)"
  by (simp add: numeral_eq_Suc)

lemma stream_bit_Cons_num0 [simp]:
  "stream_bit (b # bs) (numeral n) = stream_bit bs (pred_numeral n)"
  by (simp add: numeral_eq_Suc)

text \<open>One iteration of the decoder's renormalisation loop.\<close>

lemma scale_core:
  assumes "unat x = sval 31 (stream_bit bs)" "b = stream_bit bs 31"
  shows "unat (push_bit 1 (x :: u32) OR of_bool b) = win bs"
proof -
  have "unat x < 2 ^ 31" unfolding assms(1) by (rule sval_less)
  then have "unat x < 2147483648" by simp
  from unat_dbl_bit [OF this, of b] show ?thesis
    unfolding win_def using assms sval.simps(2) [of 31 "stream_bit bs"] by simp
qed

lemma win_split: "win (b # bs) = of_bool b * 2147483648 + sval 31 (stream_bit bs)"
  unfolding win_def using sval_Cons [of 31 b bs] by simp

lemma sval31_Cons: "sval 31 (stream_bit (b # bs)) = of_bool b * 1073741824 + sval 30 (stream_bit bs)"
  using sval_Cons [of 30 b bs] by simp

lemma dec_inv_E1:
  assumes "dec_inv v r (False # bs)"
  shows "dec_inv (push_bit 1 v OR of_bool (fst (readBit r))) (snd (readBit r)) bs"
proof -
  have w: "r_bits_left r \<le> 8" and u: "unat v = sval 31 (stream_bit bs)"
    and s: "\<And>i. reader_stream r i = stream_bit (False # bs) (32 + i)"
    using assms by (simp_all add: dec_inv_def win_split)
  note rb = readBit_stream [OF w]
  have b: "fst (readBit r) = stream_bit bs 31" using rb(1) s [of 0] by simp
  have "reader_stream (snd (readBit r)) i = stream_bit bs (32 + i)" for i
    using rb(2) [of i] s [of "Suc i"] by simp
  then show ?thesis using scale_core [OF u b] rb(3) by (simp add: dec_inv_def)
qed

lemma dec_inv_E2:
  assumes "dec_inv v r (True # bs)"
  shows "dec_inv (push_bit 1 (v - HALF) OR of_bool (fst (readBit r))) (snd (readBit r)) bs"
proof -
  have w: "r_bits_left r \<le> 8" and u: "unat v = 2147483648 + sval 31 (stream_bit bs)"
    and s: "\<And>i. reader_stream r i = stream_bit (True # bs) (32 + i)"
    using assms by (simp_all add: dec_inv_def win_split)
  have "HALF \<le> v" using u by (simp add: word_le_nat_alt unat_HALF)
  then have u': "unat (v - HALF) = sval 31 (stream_bit bs)"
    using u by (simp add: unat_sub unat_HALF)
  note rb = readBit_stream [OF w]
  have b: "fst (readBit r) = stream_bit bs 31" using rb(1) s [of 0] by simp
  have "reader_stream (snd (readBit r)) i = stream_bit bs (32 + i)" for i
    using rb(2) [of i] s [of "Suc i"] by simp
  then show ?thesis using scale_core [OF u' b] rb(3) by (simp add: dec_inv_def)
qed

lemma dec_inv_E3:
  assumes "dec_inv v r (ins (Suc 0) bs)" "bs \<noteq> []"
  shows "dec_inv (push_bit 1 (v - FIRST_QTR) OR of_bool (fst (readBit r))) (snd (readBit r)) bs"
proof -
  obtain b0 r0 where bs: "bs = b0 # r0" using assms(2) by (cases bs) auto
  have i: "ins (Suc 0) bs = b0 # (\<not> b0) # r0" by (simp add: bs ins_Cons)
  have w: "r_bits_left r \<le> 8"
    and u: "unat v = of_bool b0 * 2147483648 + (of_bool (\<not> b0) * 1073741824 + sval 30 (stream_bit r0))"
    and s: "\<And>i. reader_stream r i = stream_bit (b0 # (\<not> b0) # r0) (32 + i)"
    using assms(1) unfolding i by (simp_all add: dec_inv_def win_split sval31_Cons)
  have "FIRST_QTR \<le> v" using u by (cases b0) (simp_all add: word_le_nat_alt unat_FIRST_QTR)
  then have "unat (v - FIRST_QTR) = unat v - 1073741824" by (simp add: unat_sub unat_FIRST_QTR)
  then have u': "unat (v - FIRST_QTR) = sval 31 (stream_bit bs)"
    unfolding bs sval31_Cons u by (cases b0) simp_all
  note rb = readBit_stream [OF w]
  have b: "fst (readBit r) = stream_bit bs 31" using rb(1) s [of 0] unfolding bs by simp
  have "reader_stream (snd (readBit r)) i = stream_bit bs (32 + i)" for i
    using rb(2) [of i] s [of "Suc i"] unfolding bs by simp
  then show ?thesis using scale_core [OF u' b] rb(3) by (simp add: dec_inv_def)
qed

lemma scale_value_E1: "high < HALF \<Longrightarrow> scale_value low high v b = push_bit 1 v OR of_bool b"
  by (simp add: scale_value_def)

lemma scale_value_E2:
  "\<not> high < HALF \<Longrightarrow> HALF \<le> low \<Longrightarrow>
     scale_value low high v b = push_bit 1 (v - HALF) OR of_bool b"
  by (simp add: scale_value_def)

lemma scale_value_E3:
  "\<not> high < HALF \<Longrightarrow> \<not> HALF \<le> low \<Longrightarrow>
     scale_value low high v b = push_bit 1 (v - FIRST_QTR) OR of_bool b"
  by (simp add: scale_value_def)

text \<open>The decoder's renormalisation loop keeps \<open>value\<close> and the reader in step with the
  bits that the encoder writes from the same state.\<close>

lemma decode_renorm_sim:
  assumes m: "coder_model enc" and len: "32 * length xs + 33 < 2 ^ 32"
  shows "\<lbrakk>low \<le> high; dec_inv v r (ren_out enc xs low high 0)\<rbrakk> \<Longrightarrow>
     (case decode_renorm low high v r of
        (l2, h2, v2, r2) \<Rightarrow>
          l2 \<le> h2 \<and> renorm_step l2 h2 = None \<and> dec_inv v2 r2 (enc_out enc xs l2 h2 0))"
proof (induction low high arbitrary: v r rule: renorm_induct)
  case (step low high)
  show ?case using step.prems(1)
  proof (cases rule: renorm_step_cases)
    case (E1 l' h')
    have lh': "l' \<le> h'" using step.prems(1) E1(2) by (rule renorm_step_le(1))
    have "dec_inv v r (False # ren_out enc xs l' h' 0)"
      using step.prems(2) unfolding ren_out_Some [OF E1(2)] scale_E1 [OF E1(1)] by simp
    then have "dec_inv (scale_value low high v (fst (readBit r))) (snd (readBit r))
        (ren_out enc xs l' h' 0)"
      unfolding scale_value_E1 [OF scale_E1(3) [OF E1(1)]] by (rule dec_inv_E1)
    from step.IH [OF E1(2) lh' this] show ?thesis unfolding decode_renorm_Some [OF E1(2)] .
  next
    case (E2 l' h')
    have lh': "l' \<le> h'" using step.prems(1) E2(2) by (rule renorm_step_le(1))
    note sc = scale_E2 [OF step.prems(1) E2(1)]
    have "dec_inv v r (True # ren_out enc xs l' h' 0)"
      using step.prems(2) unfolding ren_out_Some [OF E2(2)] sc by simp
    then have "dec_inv (scale_value low high v (fst (readBit r))) (snd (readBit r))
        (ren_out enc xs l' h' 0)"
      unfolding scale_value_E2 [OF sc(3,4)] by (rule dec_inv_E2)
    from step.IH [OF E2(2) lh' this] show ?thesis unfolding decode_renorm_Some [OF E2(2)] .
  next
    case (E3 l' h')
    have lh': "l' \<le> h'" using step.prems(1) E3(5) by (rule renorm_step_le(1))
    note sc = scale_E3 [OF E3(2,3)]
    have rk: "dbl_rank (l' - h' - 1) < dbl_rank (low - high - 1)"
      using step.prems(1) E3(5) by (rule renorm_step_rank)
    have b: "unat (1 :: u32) + dbl_rank (l' - h' - 1) + 32 * length xs + 1 < 2 ^ 32"
      using rk dbl_rank_le [of "low - high - 1"] len by simp
    note i = ren_out_ins [OF m lh' b]
    have "dec_inv v r (ins (Suc 0) (ren_out enc xs l' h' 0))"
      using step.prems(2) i(1) unfolding ren_out_Some [OF E3(5)] sc by simp
    then have "dec_inv (scale_value low high v (fst (readBit r))) (snd (readBit r))
        (ren_out enc xs l' h' 0)"
      unfolding scale_value_E3 [OF sc(3,4)] using i(2) by (rule dec_inv_E3)
    from step.IH [OF E3(5) lh' this] show ?thesis unfolding decode_renorm_Some [OF E3(5)] .
  next
    case Exit
    show ?thesis
      using step.prems Exit(1)
      by (simp add: decode_renorm_None [OF Exit(1)] ren_out_None [OF Exit(1)])
  qed
qed

text \<open>In a partition, the entry that holds a cumulative value is the one that
  \<^verbatim>\<open>decodeSymbol\<close> finds.\<close>

lemma find_filter_hd: "find P xs = (case filter P xs of [] \<Rightarrow> None | y # ys \<Rightarrow> Some y)"
  by (induction xs) simp_all

lemma find_unique:
  assumes "length (filter P xs) = 1" "a \<in> set xs" "P a"
  shows "find P xs = Some a"
proof -
  obtain y where y: "filter P xs = [y]"
    using assms(1) by (cases "filter P xs") auto
  have "a \<in> set (filter P xs)" using assms(2,3) by simp
  then have "y = a" unfolding y by simp
  then show ?thesis using y by (simp add: find_filter_hd)
qed

lemma decodeSymbol_entry:
  assumes m: "coder_model enc" and it: "it \<in> set (symbols enc)"
    and c: "unat (sym_low it) \<le> unat cum" "unat cum < unat (sym_high it)"
  shows "decodeSymbol enc cum = sym_value it"
proof -
  have ct: "contiguous 0 (symbols enc) (unat (total_count enc))"
    using m by (simp add: coder_model_def)
  have "unat cum < unat (total_count enc)"
    using c(2) coder_model_entry(2) [OF m it] by simp
  then have 1: "length (filter (holds (unat cum)) (symbols enc)) = 1"
    using contiguous_holds [OF ct, of "unat cum"] by simp
  have h: "holds (unat cum) it" using c by (simp add: holds_def)
  have e: "(\<lambda>s. sym_low s \<le> cum \<and> cum < sym_high s) = holds (unat cum)"
    by (rule ext) (simp add: holds_def word_le_nat_alt word_less_nat_alt)
  show ?thesis unfolding decodeSymbol_def e find_unique [OF 1 it h] by simp
qed

text \<open>The decode loop returns the bytes that the encoder was given.\<close>

lemma decode_loop_correct:
  assumes m: "coder_model enc"
  shows "\<lbrakk>set xs \<subseteq> sym_value ` set (symbols enc); low \<le> high; renorm_step low high = None;
      dec_inv v r (enc_out enc xs low high 0); 32 * length xs + 1 < 2 ^ 32\<rbrakk>
     \<Longrightarrow> decode_loop enc (length xs) (low, high, v, r) out = Inr (out @ xs)"
proof (induction xs arbitrary: low high v r out)
  case Nil
  show ?case by simp
next
  case (Cons x xs)
  have len: "32 * length xs + 33 < 2 ^ 32" using Cons.prems(5) by simp
  then have len1: "32 * length xs + 1 < 2 ^ 32" by simp
  have "x \<in> sym_value ` set (symbols enc)" using Cons.prems(1) by simp
  then have "find (\<lambda>s. sym_value s = x) (symbols enc) \<noteq> None"
    by (auto simp add: find_None_iff)
  then obtain it where f: "find (\<lambda>s. sym_value s = x) (symbols enc) = Some it" by auto
  have it: "it \<in> set (symbols enc)" using f by (rule find_in_set)
  have vx: "sym_value it = x" using f by (auto simp add: find_Some_iff)
  let ?t = "total_count enc"
  let ?l = "fst (encode_narrow ?t it low high)"
  let ?h = "snd (encode_narrow ?t it low high)"
  note n = coder_model_narrow [OF m it Cons.prems(2,3)]
  have inv: "dec_inv v r (ren_out enc xs ?l ?h 0)"
    using Cons.prems(4) unfolding enc_out_found [OF f] .
  then have uv: "unat v = win (ren_out enc xs ?l ?h 0)" by (simp add: dec_inv_def)
  note w = ren_out_win [OF m n(1) len]
  have v: "?l \<le> v" "v \<le> ?h" using w uv by (simp_all add: word_le_nat_alt)
  have r: "unat ?t \<le> rng low high"
    using renorm_done_range [OF Cons.prems(2,3)] m by (simp add: coder_model_def)
  note c = decode_cum_in_entry [OF Cons.prems(2) coder_model_total(1) [OF m]
      coder_model_entry(2) [OF m it] coder_model_entry(1) [OF m it] r v]
  have ds: "decodeSymbol enc (decode_cum ?t low high v) = x"
    using decodeSymbol_entry [OF m it c] vx by simp
  have t: "?t \<noteq> 0" using m by (rule coder_model_total(2))
  obtain l2 h2 v2 r2 where d: "decode_renorm ?l ?h v r = (l2, h2, v2, r2)"
    by (cases "decode_renorm ?l ?h v r") auto
  from decode_renorm_sim [OF m len n(1) inv] d
  have s: "l2 \<le> h2" "renorm_step l2 h2 = None" "dec_inv v2 r2 (enc_out enc xs l2 h2 0)"
    by simp_all
  have sub: "set xs \<subseteq> sym_value ` set (symbols enc)" using Cons.prems(1) by simp
  have "decode_loop enc (Suc (length xs)) (low, high, v, r) out
      = decode_loop enc (length xs) (l2, h2, v2, r2) (out @ [x])"
    using ds f t d by (auto simp add: Let_def narrow_same split: prod.split)
  also have "\<dots> = Inr ((out @ [x]) @ xs)" using sub s len1 by (rule Cons.IH)
  finally show ?case by simp
qed

section \<open>Round trip\<close>

lemma build_same:
  "buildSymbolsFromCounts (map_items (foldl freq_incr Map.empty data)) e2 = buildFrequencyTable data e1"
proof (rule ArithmeticEncoder.equality)
  show "symbols (buildSymbolsFromCounts (map_items (foldl freq_incr Map.empty data)) e2)
      = symbols (buildFrequencyTable data e1)"
    by (simp add: symbols_buildSymbolsFromCounts symbols_buildFrequencyTable)
  show "total_count (buildSymbolsFromCounts (map_items (foldl freq_incr Map.empty data)) e2)
      = total_count (buildFrequencyTable data e1)"
    by (simp add: total_buildSymbolsFromCounts total_buildFrequencyTable word_sum_items_tally)
qed simp

lemma length_all_bytes: "length all_bytes = 256"
  by (simp add: all_bytes_def)

lemma length_table:
  "length (symbols (buildFrequencyTable data e)) = length (map_items (foldl freq_incr Map.empty data))"
  by (simp add: symbols_buildFrequencyTable)

lemma length_items_le: "length (map_items (foldl freq_incr Map.empty data)) \<le> 256"
proof -
  have "length (filter (\<lambda>k. k \<in> set data) all_bytes) \<le> length all_bytes" by (rule length_filter_le)
  then show ?thesis by (simp add: map_items_tally length_all_bytes)
qed

lemma renorm_step_start: "renorm_step 0 MAX_RANGE = None"
  by (simp add: renorm_step_def MAX_RANGE_def HALF_def FIRST_QTR_def THIRD_QTR_def)

lemma decodeData_encoded:
  assumes len: "length data < 2 ^ 27"
    and w: "encodeData (buildFrequencyTable data e) data new_writer = Inr w"
  shows "decodeData (buildFrequencyTable data e) (new_reader (w_bytes w)) [] (of_nat (length data))
           = Inr data"
proof -
  let ?enc = "buildFrequencyTable data e"
  have l64: "length data < 2 ^ 64" using len by (rule less_trans) simp
  have un: "unat (of_nat (length data) :: u64) = length data"
    using l64 by (simp add: unat_of_nat)
  show ?thesis
  proof (cases "data = []")
    case True
    then show ?thesis
      by (simp add: decodeData_def split: prod.split)
  next
    case False
    have l30: "length data \<le> 2 ^ 30" using len by simp
    have m: "coder_model ?enc" using False l30 by (rule coder_model_buildFrequencyTable)
    have t: "total_count ?enc \<noteq> 0 \<or> data = []" using coder_model_total(2) [OF m] by simp
    let ?E = "enc_out ?enc data 0 MAX_RANGE 0"
    have we: "w = flush (write_bits ?E new_writer)"
      using w encodeData_bits [OF t, of new_writer] by simp
    have f0: "w_bits_filled new_writer < 8" by (simp add: new_writer_def)
    note wb = write_bits_bits [OF f0, of ?E]
    have st: "stream_bit (bits_of_bytes (w_bytes w)) = stream_bit ?E"
      unfolding we using flush_bits [of "write_bits ?E new_writer"] wb
      by (simp add: writer_bits_new)
    obtain v r where rv: "read_value 32 0 (new_reader (w_bytes w)) = (v, r)"
      by (cases "read_value 32 0 (new_reader (w_bytes w))") auto
    have "dec_inv v r (bits_of_bytes (w_bytes w))"
      using read_value_inv [of "w_bytes w"] rv by simp
    then have inv: "dec_inv v r ?E" using st by (rule dec_inv_stream_eq)
    have sub: "set data \<subseteq> sym_value ` set (symbols ?enc)"
      using set_values_buildFrequencyTable [of data e] by simp
    have le: "(0 :: u32) \<le> MAX_RANGE" by simp
    have b: "32 * length data + 1 < 2 ^ 32" using len by simp
    from decode_loop_correct [OF m sub le renorm_step_start inv b, of "[]"]
    show ?thesis by (simp add: decodeData_def rv un)
  qed
qed

text \<open>
  Claim C1, amended. For every byte sequence of fewer than \<open>2^27\<close> bytes, the empty one
  included, \<^verbatim>\<open>compress\<close> succeeds and \<^verbatim>\<open>decompress\<close> of the file it writes returns exactly the
  input (on any encoder object, whatever it held before).
\<close>

theorem round_trip:
  assumes "length data < 2 ^ 27"
  shows "case compress e1 (Some data) True of
           Inl err \<Rightarrow> False
         | Inr (outfile, st, enc') \<Rightarrow> decompress e2 (Some outfile) True = Inr (data, enc')"
proof -
  let ?enc = "buildFrequencyTable data e1"
  let ?counts = "map_items (foldl freq_incr Map.empty data)"
  have l64: "length data < 2 ^ 64" using assms by (rule less_trans) simp
  obtain w where w: "encodeData ?enc data new_writer = Inr w"
    using encodeData_total [OF l64] by blast
  have n: "length ?counts = unat (of_nat (length (symbols ?enc)) :: u32)"
    using length_table [of data e1] length_items_le [of data] by (simp add: unat_of_nat)
  have d: "decodeData (buildSymbolsFromCounts ?counts e2) (new_reader (w_bytes w)) []
      (of_nat (length data)) = Inr data"
    unfolding build_same [of data e2 e1] using assms w by (rule decodeData_encoded)
  have "unat (of_nat (length data) :: u64) = length data"
    using l64 by (simp add: unat_of_nat)
  then have "unat (of_nat (length data) :: u64) < 2 ^ 27" using assms by simp
  then have m: "\<not> max_size < (of_nat (length data) :: u64)"
    by (simp add: max_size_def word_less_nat_alt)
  show ?thesis
    unfolding compress_result [OF w] sum.case prod.case decompress_wellformed [OF n] d
    using m by (simp add: build_same [of data e2 e1])
qed

theorem round_trip_witness:
  "length [0x61, 0x62, 0x61, 0x63, 0x61 :: byte] < 2 ^ 27
   \<and> compress \<lparr>symbols = [], total_count = 0\<rparr> (Some [0x61, 0x62, 0x61, 0x63, 0x61]) True
     = Inr ([0x41, 0x52, 0x49, 0x54, 0, 0, 0, 0, 0, 0, 0, 5, 0, 0, 0, 3,
             0x61, 0, 0, 0, 0, 0, 0, 0, 3, 0x62, 0, 0, 0, 0, 0, 0, 0, 1,
             0x63, 0, 0, 0, 0, 0, 0, 0, 1, 0x6B],
            \<lparr>stat_original_size = 5, stat_compressed_size = 44,
             stat_space_saved = 0xFFFFFFFFFFFFFFD9\<rparr>,
            \<lparr>symbols = [\<lparr>sym_value = 0x61, sym_low = 0, sym_high = 3, sym_count = 3\<rparr>,
                        \<lparr>sym_value = 0x62, sym_low = 3, sym_high = 4, sym_count = 1\<rparr>,
                        \<lparr>sym_value = 0x63, sym_low = 4, sym_high = 5, sym_count = 1\<rparr>],
             total_count = 5\<rparr>)
   \<and> decompress \<lparr>symbols = [], total_count = 0\<rparr>
       (Some [0x41, 0x52, 0x49, 0x54, 0, 0, 0, 0, 0, 0, 0, 5, 0, 0, 0, 3,
              0x61, 0, 0, 0, 0, 0, 0, 0, 3, 0x62, 0, 0, 0, 0, 0, 0, 0, 1,
              0x63, 0, 0, 0, 0, 0, 0, 0, 1, 0x6B]) True
     = Inr ([0x61, 0x62, 0x61, 0x63, 0x61],
            \<lparr>symbols = [\<lparr>sym_value = 0x61, sym_low = 0, sym_high = 3, sym_count = 3\<rparr>,
                        \<lparr>sym_value = 0x62, sym_low = 3, sym_high = 4, sym_count = 1\<rparr>,
                        \<lparr>sym_value = 0x63, sym_low = 4, sym_high = 5, sym_count = 1\<rparr>],
             total_count = 5\<rparr>)"
proof -
  have l: "length [0x61, 0x62, 0x61, 0x63, 0x61 :: byte] < 2 ^ 27" by simp
  have c: "compress \<lparr>symbols = [], total_count = 0\<rparr> (Some [0x61, 0x62, 0x61, 0x63, 0x61]) True
     = Inr ([0x41, 0x52, 0x49, 0x54, 0, 0, 0, 0, 0, 0, 0, 5, 0, 0, 0, 3,
             0x61, 0, 0, 0, 0, 0, 0, 0, 3, 0x62, 0, 0, 0, 0, 0, 0, 0, 1,
             0x63, 0, 0, 0, 0, 0, 0, 0, 1, 0x6B],
            \<lparr>stat_original_size = 5, stat_compressed_size = 44,
             stat_space_saved = 0xFFFFFFFFFFFFFFD9\<rparr>,
            \<lparr>symbols = [\<lparr>sym_value = 0x61, sym_low = 0, sym_high = 3, sym_count = 3\<rparr>,
                        \<lparr>sym_value = 0x62, sym_low = 3, sym_high = 4, sym_count = 1\<rparr>,
                        \<lparr>sym_value = 0x63, sym_low = 4, sym_high = 5, sym_count = 1\<rparr>],
             total_count = 5\<rparr>)"
    by code_simp
  show ?thesis
    using round_trip [OF l, of "\<lparr>symbols = [], total_count = 0\<rparr>" "\<lparr>symbols = [], total_count = 0\<rparr>"] c l
    by simp
qed

section \<open>An input beyond the precision of the coder\<close>

text \<open>One byte 0 followed by \<open>2^32\<close> bytes 1: \<open>total_count = 2^32 + 1\<close> is larger than the
  widest range, the narrowing for either byte leaves \<open>low = 0\<close>, \<open>high = 2^32 - 1\<close>, and the
  encoder writes nothing but its two final bits.\<close>

definition big_input :: "byte list" where
  "big_input = 0 # replicate 4294967296 1"

definition big_model :: ArithmeticEncoder where
  "big_model =
     \<lparr>symbols = [\<lparr>sym_value = 0, sym_low = 0, sym_high = 1, sym_count = 1\<rparr>,
                 \<lparr>sym_value = 1, sym_low = 1, sym_high = 0x100000001, sym_count = 0x100000000\<rparr>],
      total_count = 0x100000001\<rparr>"

definition big_file :: "byte list" where
  "big_file =
     [0x41, 0x52, 0x49, 0x54, 0, 0, 0, 1, 0, 0, 0, 1, 0, 0, 0, 2,
      0, 0, 0, 0, 0, 0, 0, 0, 1, 1, 0, 0, 0, 1, 0, 0, 0, 0, 0x40]"

lemma count_list_replicate: "count_list (replicate n x) y = (if x = y then n else 0)"
  by (induction n) auto

lemma big_input_facts:
  "length big_input = 4294967297" "set big_input = {0, 1}"
  "count_list big_input 0 = 1" "count_list big_input 1 = 4294967296"
  by (simp_all add: big_input_def count_list_replicate)

lemma big_items: "map_items (foldl freq_incr Map.empty big_input) = [(0, 1), (1, 0x100000000)]"
proof -
  have f: "filter (\<lambda>k. k = 0 \<or> k = 1) all_bytes = [0, 1]" by code_simp
  show ?thesis unfolding map_items_tally big_input_facts(2)
    by (simp add: f big_input_facts(3,4))
qed

lemma big_build: "buildFrequencyTable big_input e = big_model"
proof (rule ArithmeticEncoder.equality)
  show "symbols (buildFrequencyTable big_input e) = symbols big_model"
    unfolding symbols_buildFrequencyTable big_items by (simp add: big_model_def)
  show "total_count (buildFrequencyTable big_input e) = total_count big_model"
    unfolding total_buildFrequencyTable big_input_facts(1) by (simp add: big_model_def)
qed simp

lemma big_find:
  "find (\<lambda>s. sym_value s = 0) (symbols big_model)
     = Some \<lparr>sym_value = 0, sym_low = 0, sym_high = 1, sym_count = 1\<rparr>"
  "find (\<lambda>s. sym_value s = 1) (symbols big_model)
     = Some \<lparr>sym_value = 1, sym_low = 1, sym_high = 0x100000001, sym_count = 0x100000000\<rparr>"
  "total_count big_model \<noteq> 0"
  by (simp_all add: big_model_def)

lemma big_narrow:
  "encode_narrow (total_count big_model) \<lparr>sym_value = 0, sym_low = 0, sym_high = 1, sym_count = 1\<rparr>
     0 MAX_RANGE = (0, MAX_RANGE)"
  "encode_narrow (total_count big_model)
     \<lparr>sym_value = 1, sym_low = 1, sym_high = 0x100000001, sym_count = 0x100000000\<rparr>
     0 MAX_RANGE = (0, MAX_RANGE)"
  by code_simp+

lemma big_encode_step:
  "x = 0 \<or> x = 1 \<Longrightarrow>
     encode_loop big_model (x # xs) (0, MAX_RANGE, 0, w)
       = encode_loop big_model xs (0, MAX_RANGE, 0, w)"
  by (auto simp add: big_find big_narrow encode_renorm_None [OF renorm_step_start])

lemma big_encode_ones:
  "encode_loop big_model (replicate n 1) (0, MAX_RANGE, 0, w) = Inr (0, MAX_RANGE, 0, w)"
proof (induction n)
  case 0
  show ?case by simp
next
  case (Suc n)
  show ?case unfolding replicate_Suc using big_encode_step [of 1 "replicate n 1" w] Suc by simp
qed

lemma big_encodeData:
  "encodeData big_model big_input new_writer
     = Inr \<lparr>w_bytes = [0x40], w_current = 0, w_bits_filled = 0\<rparr>"
proof -
  have "encode_loop big_model big_input (0, MAX_RANGE, 0, new_writer)
      = Inr (0, MAX_RANGE, 0, new_writer)"
    unfolding big_input_def using big_encode_step [of 0 "replicate 4294967296 1" new_writer]
    by (simp only: big_encode_ones simp_thms)
  moreover have "encode_finish (0, MAX_RANGE, 0, new_writer)
      = \<lparr>w_bytes = [0x40], w_current = 0, w_bits_filled = 0\<rparr>" by code_simp
  ultimately show ?thesis by (simp add: encodeData_def)
qed

lemma big_compress:
  "compress e (Some big_input) True
     = Inr (big_file,
            \<lparr>stat_original_size = 0x100000001, stat_compressed_size = 35,
             stat_space_saved = 0xFFFFFFDE\<rparr>,
            big_model)"
proof -
  have w: "encodeData (buildFrequencyTable big_input e) big_input new_writer
      = Inr \<lparr>w_bytes = [0x40], w_current = 0, w_bits_filled = 0\<rparr>"
    unfolding big_build by (rule big_encodeData)
  have f: "magic @ writeUint64 0x100000001 @ writeUint32 2
      @ table_bytes [(0, 1), (1, 0x100000000)] @ [0x40] = big_file" by code_simp
  have l: "length (symbols big_model) = 2" by (simp add: big_model_def)
  show ?thesis
    unfolding compress_result [OF w] big_build big_items big_input_facts(1) l
    using f by simp
qed

text \<open>The first byte that \<^verbatim>\<open>decompress\<close> decodes from that file is 1.\<close>

lemma decode_loop_prefix:
  "decode_loop enc n st out = Inr out' \<Longrightarrow> \<exists>ys. out' = out @ ys"
proof (induction n arbitrary: st out)
  case 0
  then show ?case by simp
next
  case (Suc n)
  obtain low high v r where st: "st = (low, high, v, r)" by (cases st) auto
  let ?sv = "decodeSymbol enc (decode_cum (total_count enc) low high v)"
  from Suc.prems obtain st' where "decode_loop enc n st' (out @ [?sv]) = Inr out'"
    unfolding st by (auto simp add: Let_def split: option.splits if_splits prod.splits)
  from Suc.IH [OF this] show ?case by auto
qed

lemma big_table: "buildSymbolsFromCounts [(0, 1), (1, 0x100000000)] e = big_model"
  by (rule ArithmeticEncoder.equality)
    (simp_all add: symbols_buildSymbolsFromCounts total_buildSymbolsFromCounts big_model_def)

lemma big_decode_step:
  "decode_loop big_model (Suc n) (0, MAX_RANGE, 0x40000000, r) out
     = decode_loop big_model n (0, MAX_RANGE, 0x40000000, r) (out @ [1])"
proof -
  have sv: "decodeSymbol big_model (decode_cum (total_count big_model) 0 MAX_RANGE 0x40000000) = 1"
    by code_simp
  show ?thesis
    by (simp add: Let_def sv big_find narrow_same big_narrow
        decode_renorm_None [OF renorm_step_start])
qed

lemma big_decode_first:
  assumes "decodeData big_model (new_reader [0x40]) [] 0x100000001 = Inr decoded"
  shows "\<exists>ys. decoded = 1 # ys"
proof -
  have v: "fst (read_value 32 0 (new_reader [0x40])) = 0x40000000" by code_simp
  obtain r where rv: "read_value 32 0 (new_reader [0x40]) = (0x40000000, r)"
    using v by (cases "read_value 32 0 (new_reader [0x40])") auto
  have u: "unat (0x100000001 :: u64) = Suc 4294967296" by simp
  have "decode_loop big_model (Suc 4294967296) (0, MAX_RANGE, 0x40000000, r) [] = Inr decoded"
    using assms unfolding decodeData_def rv prod.case u .
  then have "decode_loop big_model 4294967296 (0, MAX_RANGE, 0x40000000, r) ([] @ [1]) = Inr decoded"
    by (simp only: big_decode_step)
  from decode_loop_prefix [OF this] show ?thesis by simp
qed

text \<open>
  The claim C1 as stated fails on this input: \<^verbatim>\<open>compress\<close> writes the 35-byte file
  \<open>big_file\<close>, and whatever \<^verbatim>\<open>decompress\<close> returns for it starts with byte 1 and is not the
  input, which starts with byte 0.
\<close>

theorem round_trip_counterexample:
  "compress \<lparr>symbols = [], total_count = 0\<rparr> (Some big_input) True
     = Inr (big_file,
            \<lparr>stat_original_size = 0x100000001, stat_compressed_size = 35,
             stat_space_saved = 0xFFFFFFDE\<rparr>,
            big_model)
   \<and> hd big_input = 0
   \<and> (case decompress \<lparr>symbols = [], total_count = 0\<rparr> (Some big_file) True of
         Inl err \<Rightarrow> True
       | Inr (decoded, enc') \<Rightarrow> hd decoded = 1 \<and> decoded \<noteq> big_input)"
proof -
  have f: "big_file = magic @ writeUint64 0x100000001 @ writeUint32 2
      @ table_bytes [(0, 1), (1, 0x100000000)] @ [0x40]" by code_simp
  have n: "length [(0 :: byte, 1 :: u64), (1, 0x100000000)] = unat (2 :: u32)" by simp
  have d: "decompress \<lparr>symbols = [], total_count = 0\<rparr> (Some big_file) True
      = (case decodeData big_model (new_reader [0x40]) [] 0x100000001 of
           Inl e \<Rightarrow> Inl e | Inr decoded \<Rightarrow> Inr (decoded, big_model))"
    unfolding f decompress_wellformed [OF n] big_table by (simp add: max_size_def)
  have h: "hd big_input = 0" by (simp add: big_input_def)
  have "hd decoded = 1 \<and> decoded \<noteq> big_input"
    if dd: "decodeData big_model (new_reader [0x40]) [] 0x100000001 = Inr decoded" for decoded
  proof -
    obtain ys where "decoded = 1 # ys" using big_decode_first [OF dd] by blast
    then have "hd decoded = 1" by simp
    moreover have "hd decoded \<noteq> hd big_input" unfolding h \<open>hd decoded = 1\<close> by simp
    ultimately show ?thesis by auto
  qed
  then show ?thesis unfolding d using big_compress h
    by (auto split: sum.split)
qed

end
